theory Spec2Isabelle
  imports Main
begin

chapter \<open>The program\<close>

section \<open>Data model\<close>

text \<open>
  Go's \<open>int\<close> values are modelled as mathematical integers. The only arithmetic the
  program performs on interval bounds is the increment in \<open>Dedup\<close>, where the 64-bit
  wrap-around is written out with \<open>wrap64\<close>; everything else compares or copies.
  The field \<open>Id\<close> is written \<open>Id'\<close>, and \<open>min\<close> and \<open>max\<close> are written
  \<open>min'\<close> and \<open>max'\<close>, since HOL has constants of these names.
\<close>

definition wrap64 :: "int \<Rightarrow> int" where
  "wrap64 x = (x + 2 ^ 63) mod 2 ^ 64 - 2 ^ 63"

record Segment =
  From :: int
  To :: int

record Interval =
  Id' :: int
  Segment :: Segment

text \<open>
  A tree node. The child pointers may be nil independently, hence two options. The
  overlap slice holds pointers into the staging slice, whose elements are never written
  after \<open>Push\<close>, so the model stores the intervals themselves. The parallel tree's
  \<open>mnode\<close> has the same fields and a mutex, held around each append to the overlap
  slice, which makes the append one step of the task that performs it; both trees share
  this type.
\<close>

datatype node = Node (segment: Segment) (left: "node option") (right: "node option")
  (overlap: "Interval list")

type_synonym mnode = node

record stree =
  count :: int
  root :: "node option"
  base :: "Interval list"
  min' :: int
  max' :: int

datatype panic =
    NoIntervals
  | EmptyTree
  | NotSupported
  | RuntimeError
  | Blocked

text \<open>
  \<open>NoIntervals\<close> is the panic of \<open>BuildTree\<close> on an empty stack, \<open>EmptyTree\<close> the
  panic of the queries on a nil root, \<open>NotSupported\<close> the panic of the serial structure's
  tree methods, and \<open>RuntimeError\<close> a run-time panic of Go itself (index out of range,
  negative slice length). \<open>Blocked\<close> stands for a call that never returns because it
  waits at a channel that no task will serve.
\<close>

section \<open>Segment predicates\<close>

definition Disjoint :: "Segment \<Rightarrow> int \<Rightarrow> int \<Rightarrow> bool" where
  "Disjoint s from to = (if from > To s \<or> to < From s then True else False)"

definition subsetOf :: "Segment \<Rightarrow> Segment \<Rightarrow> bool" where
  "subsetOf s other = (From other \<le> From s \<and> To other \<ge> To s)"

definition intersectsWith :: "Segment \<Rightarrow> Segment \<Rightarrow> bool" where
  "intersectsWith s other =
     (From other \<le> To s \<and> From s \<le> To other \<or> From s \<le> To other \<and> From other \<le> To s)"

datatype relation = SUBSET | DISJOINT | INTERSECT_OR_SUPERSET

definition CompareTo :: "Segment \<Rightarrow> Segment \<Rightarrow> relation" where
  "CompareTo s other =
     (if From other > To s \<or> To other < From s then DISJOINT
      else if From other \<le> From s \<and> To other \<ge> To s then SUBSET
      else INTERSECT_OR_SUPERSET)"

section \<open>Staging\<close>

definition Push :: "stree \<Rightarrow> int \<Rightarrow> int \<Rightarrow> stree" where
  "Push t from to =
     t\<lparr>base := base t @ [\<lparr>Id' = count t, Segment = \<lparr>From = from, To = to\<rparr>\<rparr>],
       count := wrap64 (count t + 1)\<rparr>"

definition Clear :: "stree \<Rightarrow> stree" where
  "Clear t = t\<lparr>count := 0, root := None, base := [], min' := 0, max' := 0\<rparr>"

definition NewTree :: stree where
  "NewTree = Clear \<lparr>count = 0, root = None, base = [], min' = 0, max' = 0\<rparr>"

section \<open>Endpoint extraction\<close>

text \<open>
  \<open>Dedup\<close> sorts the slice in place, then keeps each value that differs from the one
  kept before it. Reading \<open>sl[0]\<close> panics on an empty slice.
\<close>

definition Dedup :: "int list \<Rightarrow> panic + int list" where
  "Dedup sl =
     (let sl = sort sl in
      if sl = [] then Inl RuntimeError
      else Inr (fst (foldl (\<lambda>(unique, prev) val.
                        if val \<noteq> prev then (unique @ [val], val) else (unique, prev))
                      ([], wrap64 (sl ! 0 + 1)) sl)))"

definition Endpoints :: "Interval list \<Rightarrow> panic + (int list \<times> int \<times> int)" where
  "Endpoints base' =
     (let baseLen = length base';
          endpoints = foldl (\<lambda>endpoints (i, interval).
                         (endpoints[i := From (Segment interval)])
                           [i + baseLen := To (Segment interval)])
                       (replicate (baseLen * 2) 0) (enumerate 0 base')
      in case Dedup endpoints of
           Inl e \<Rightarrow> Inl e
         | Inr result \<Rightarrow>
             if result = [] then Inl RuntimeError
             else Inr (result, result ! 0, result ! (length result - 1)))"

section \<open>Elementary decomposition\<close>

text \<open>
  The source allocates \<open>len(endpoints)*2-1\<close> segments and fills them by index; with
  no endpoint the length is negative and \<open>make\<close> panics. \<open>elementaryIntervals_body\<close>
  is the body of its loop.
\<close>

definition elementaryIntervals_body :: "int list \<Rightarrow> Segment list \<Rightarrow> nat \<Rightarrow> Segment list" where
  "elementaryIntervals_body endpoints intervals i =
     (let intervals = intervals[i * 2 := \<lparr>From = endpoints ! i, To = endpoints ! i\<rparr>]
      in if i < length endpoints - 1
         then intervals[i * 2 + 1 := \<lparr>From = endpoints ! i, To = endpoints ! (i + 1)\<rparr>]
         else intervals)"

definition elementaryIntervals :: "int list \<Rightarrow> panic + Segment list" where
  "elementaryIntervals endpoints =
     (if length endpoints = 1 then Inr [\<lparr>From = endpoints ! 0, To = endpoints ! 0\<rparr>]
      else if endpoints = [] then Inl RuntimeError
      else Inr (foldl (elementaryIntervals_body endpoints)
                 (replicate (length endpoints * 2 - 1) \<lparr>From = 0, To = 0\<rparr>)
                 [0..<length endpoints]))"

text \<open>The leaf sequence as the specification words it: point and gap segments alternate.\<close>

fun alternating :: "int list \<Rightarrow> Segment list" where
  "alternating [] = []"
| "alternating [p] = [\<lparr>From = p, To = p\<rparr>]"
| "alternating (p # q # ps) =
     \<lparr>From = p, To = p\<rparr> # \<lparr>From = p, To = q\<rparr> # alternating (q # ps)"

section \<open>Sequential tree construction\<close>

function insertNodes :: "Segment list \<Rightarrow> panic + node" where
  "insertNodes leaves =
     (if length leaves = 1 then Inr (Node (leaves ! 0) None None [])
      else if leaves = [] then Inl RuntimeError
      else let center = length leaves div 2 in
        case insertNodes (take center leaves) of
          Inl e \<Rightarrow> Inl e
        | Inr l \<Rightarrow>
            (case insertNodes (drop center leaves) of
               Inl e \<Rightarrow> Inl e
             | Inr r \<Rightarrow>
                 Inr (Node \<lparr>From = From (leaves ! 0), To = To (leaves ! (length leaves - 1))\<rparr>
                        (Some l) (Some r) [])))"
  by pat_completeness auto
termination
proof (relation "measure length")
  fix leaves :: "Segment list" and center :: nat
  assume "length leaves \<noteq> 1" "leaves \<noteq> []" "center = length leaves div 2"
  then have "length leaves \<noteq> 0" "length leaves \<noteq> 1"
    by simp_all
  then have "2 \<le> length leaves"
    by arith
  with \<open>center = length leaves div 2\<close>
  show "(take center leaves, leaves) \<in> measure length"
    and "(drop center leaves, leaves) \<in> measure length"
    by auto
qed simp

section \<open>Canonical insertion\<close>

text \<open>
  The current formulation: a node whose segment lies inside the interval takes the
  interval; otherwise each child whose segment meets the interval is entered. The model
  returns the node as the call leaves it.
\<close>

fun insertInterval :: "node \<Rightarrow> Interval \<Rightarrow> node" where
  "insertInterval (Node seg l r ov) intrvl =
     (if subsetOf seg (Segment intrvl) then Node seg l r (ov @ [intrvl])
      else
        let l = (case l of
                   None \<Rightarrow> None
                 | Some ln \<Rightarrow>
                     if intersectsWith (segment ln) (Segment intrvl)
                     then Some (insertInterval ln intrvl) else Some ln);
            r = (case r of
                   None \<Rightarrow> None
                 | Some rn \<Rightarrow>
                     if intersectsWith (segment rn) (Segment intrvl)
                     then Some (insertInterval rn intrvl) else Some rn)
        in Node seg l r ov)"

text \<open>
  The earlier formulation, built on \<open>CompareTo\<close>: every existing child is entered and
  a disjoint node is left alone at the entry of the call.
\<close>

fun insertInterval_CompareTo :: "node \<Rightarrow> Interval \<Rightarrow> node" where
  "insertInterval_CompareTo (Node seg l r ov) intrvl =
     (case CompareTo seg (Segment intrvl) of
        SUBSET \<Rightarrow> Node seg l r (ov @ [intrvl])
      | INTERSECT_OR_SUPERSET \<Rightarrow>
          let l = (case l of None \<Rightarrow> None | Some ln \<Rightarrow> Some (insertInterval_CompareTo ln intrvl));
              r = (case r of None \<Rightarrow> None | Some rn \<Rightarrow> Some (insertInterval_CompareTo rn intrvl))
          in Node seg l r ov
      | DISJOINT \<Rightarrow> Node seg l r ov)"

section \<open>Sequential build and query\<close>

definition BuildTree :: "stree \<Rightarrow> panic + stree" where
  "BuildTree t =
     (if length (base t) = 0 then Inl NoIntervals
      else case Endpoints (base t) of
        Inl e \<Rightarrow> Inl e
      | Inr (endpoints, mn, mx) \<Rightarrow>
          (case elementaryIntervals endpoints of
             Inl e \<Rightarrow> Inl e
           | Inr leaves \<Rightarrow>
               (case insertNodes leaves of
                  Inl e \<Rightarrow> Inl e
                | Inr n \<Rightarrow>
                    Inr (t\<lparr>min' := mn, max' := mx,
                           root := Some (foldl insertInterval n (base t))\<rparr>))))"

text \<open>
  The result accumulator of a query is a Go map from interval id to interval. The slice
  a query returns lists the values of that map in the unspecified order of Go's map
  iteration, so the model returns the map itself; \<open>ids\<close> reads the ids of the
  intervals it holds.
\<close>

definition ids :: "(int \<rightharpoonup> Interval) \<Rightarrow> int set" where
  "ids result = Id' ` ran result"

definition addOverlap :: "Interval list \<Rightarrow> (int \<rightharpoonup> Interval) \<Rightarrow> (int \<rightharpoonup> Interval)" where
  "addOverlap ov result = foldl (\<lambda>result pintrvl. result(Id' pintrvl \<mapsto> pintrvl)) result ov"

fun querySingle :: "node \<Rightarrow> int \<Rightarrow> int \<Rightarrow> (int \<rightharpoonup> Interval) \<Rightarrow> (int \<rightharpoonup> Interval)" where
  "querySingle (Node seg l r ov) from to result =
     (if \<not> Disjoint seg from to then
        let result = addOverlap ov result;
            result = (case r of None \<Rightarrow> result | Some rn \<Rightarrow> querySingle rn from to result)
        in (case l of None \<Rightarrow> result | Some ln \<Rightarrow> querySingle ln from to result)
      else result)"

text \<open>
  The methods with a pointer receiver return the tree they leave behind next to their
  result.
\<close>

definition Query :: "stree \<Rightarrow> int \<Rightarrow> int \<Rightarrow> panic + ((int \<rightharpoonup> Interval) \<times> stree)" where
  "Query t from to =
     (case root t of
        None \<Rightarrow> Inl EmptyTree
      | Some n \<Rightarrow> Inr (querySingle n from to Map.empty, t))"

text \<open>
  The range loop of \<open>queryMulti\<close>: it walks \<open>from\<close> and reads \<open>to\<close> at the same
  index, which panics when \<open>to\<close> is the shorter slice.
\<close>

fun queryMulti_loop ::
  "Segment \<Rightarrow> Interval list \<Rightarrow> int list \<Rightarrow> int list \<Rightarrow>
   (int \<rightharpoonup> Interval) \<times> int list \<times> int list \<Rightarrow>
   panic + ((int \<rightharpoonup> Interval) \<times> int list \<times> int list)" where
  "queryMulti_loop seg ov [] to st = Inr st"
| "queryMulti_loop seg ov (fromvalue # from) [] st = Inl RuntimeError"
| "queryMulti_loop seg ov (fromvalue # from) (tovalue # to) (result, hitsFrom, hitsTo) =
     queryMulti_loop seg ov from to
       (if \<not> Disjoint seg fromvalue tovalue
        then (addOverlap ov result, hitsFrom @ [fromvalue], hitsTo @ [tovalue])
        else (result, hitsFrom, hitsTo))"

fun queryMulti ::
  "node \<Rightarrow> int list \<Rightarrow> int list \<Rightarrow> (int \<rightharpoonup> Interval) \<Rightarrow> panic + (int \<rightharpoonup> Interval)" where
  "queryMulti (Node seg l r ov) from to result =
     (case queryMulti_loop seg ov from to (result, [], []) of
        Inl e \<Rightarrow> Inl e
      | Inr (result, hitsFrom, hitsTo) \<Rightarrow>
          if length hitsFrom \<noteq> 0 then
            (case (case r of None \<Rightarrow> Inr result | Some rn \<Rightarrow> queryMulti rn hitsFrom hitsTo result) of
               Inl e \<Rightarrow> Inl e
             | Inr result \<Rightarrow>
                 (case l of None \<Rightarrow> Inr result | Some ln \<Rightarrow> queryMulti ln hitsFrom hitsTo result))
          else Inr result)"

definition QueryArray ::
  "stree \<Rightarrow> int list \<Rightarrow> int list \<Rightarrow> panic + ((int \<rightharpoonup> Interval) \<times> stree)" where
  "QueryArray t from to =
     (case root t of
        None \<Rightarrow> Inl EmptyTree
      | Some n \<Rightarrow>
          (case queryMulti n from to Map.empty of
             Inl e \<Rightarrow> Inl e
           | Inr result \<Rightarrow> Inr (result, t)))"

section \<open>The earlier sequential build\<close>

text \<open>
  The source tree also holds the earlier \<open>stree.go\<close>, which builds the tree over the
  endpoints themselves and inserts with the \<open>CompareTo\<close> formulation.
\<close>

function insertNodes_v1 :: "int list \<Rightarrow> panic + node" where
  "insertNodes_v1 endpoint =
     (if length endpoint = 1 then
        Inr (Node \<lparr>From = endpoint ! 0, To = endpoint ! 0\<rparr> None None [])
      else if endpoint = [] then Inl RuntimeError
      else
        let seg = \<lparr>From = endpoint ! 0, To = endpoint ! (length endpoint - 1)\<rparr>;
            center = length endpoint div 2
        in case insertNodes_v1 (take center endpoint) of
             Inl e \<Rightarrow> Inl e
           | Inr l \<Rightarrow>
               (case insertNodes_v1 (drop center endpoint) of
                  Inl e \<Rightarrow> Inl e
                | Inr r \<Rightarrow> Inr (Node seg (Some l) (Some r) [])))"
  by pat_completeness auto
termination
proof (relation "measure length")
  fix endpoint :: "int list" and seg :: Segment and center :: nat
  assume "length endpoint \<noteq> 1" "endpoint \<noteq> []" "center = length endpoint div 2"
  then have "length endpoint \<noteq> 0" "length endpoint \<noteq> 1"
    by simp_all
  then have "2 \<le> length endpoint"
    by arith
  with \<open>center = length endpoint div 2\<close>
  show "(take center endpoint, endpoint) \<in> measure length"
    and "(drop center endpoint, endpoint) \<in> measure length"
    by auto
qed simp

definition BuildTree_v1 :: "stree \<Rightarrow> panic + stree" where
  "BuildTree_v1 t =
     (if length (base t) = 0 then Inl NoIntervals
      else case Endpoints (base t) of
        Inl e \<Rightarrow> Inl e
      | Inr (endpoint, mn, mx) \<Rightarrow>
          (case insertNodes_v1 endpoint of
             Inl e \<Rightarrow> Inl e
           | Inr n \<Rightarrow>
               Inr (t\<lparr>min' := mn, max' := mx,
                      root := Some (foldl insertInterval_CompareTo n (base t))\<rparr>)))"

section \<open>The serial structure\<close>

text \<open>
  \<open>serial\<close> embeds \<open>stree\<close> and overrides five methods; it answers from the staging
  slice alone and returns a slice in staging order.
\<close>

type_synonym serial = stree

definition serial_BuildTree :: "serial \<Rightarrow> panic + serial" where
  "serial_BuildTree t = Inl NotSupported"

definition serial_Print :: "serial \<Rightarrow> panic + serial" where
  "serial_Print t = Inl NotSupported"

definition serial_Tree2Array :: "serial \<Rightarrow> panic + (Segment \<times> Interval list) list" where
  "serial_Tree2Array t = Inl NotSupported"

definition serial_Query :: "serial \<Rightarrow> int \<Rightarrow> int \<Rightarrow> Interval list" where
  "serial_Query t from to =
     foldl (\<lambda>result intrvl.
              if \<not> Disjoint (Segment intrvl) from to then result @ [intrvl] else result)
       [] (base t)"

fun serial_QueryArray_loop ::
  "serial \<Rightarrow> int list \<Rightarrow> int list \<Rightarrow> Interval list \<Rightarrow> panic + Interval list" where
  "serial_QueryArray_loop t [] to result = Inr result"
| "serial_QueryArray_loop t (fromvalue # from) [] result = Inl RuntimeError"
| "serial_QueryArray_loop t (fromvalue # from) (tovalue # to) result =
     serial_QueryArray_loop t from to (result @ serial_Query t fromvalue tovalue)"

definition serial_QueryArray :: "serial \<Rightarrow> int list \<Rightarrow> int list \<Rightarrow> panic + Interval list" where
  "serial_QueryArray t from to = serial_QueryArray_loop t from to []"

section \<open>The parallel tree\<close>

text \<open>
  \<open>mtree\<close> has the fields of \<open>stree\<close> and four more. The channel \<open>done\<close> carries
  one signal from each goroutine that builds a branch to \<open>wait\<close>; the model joins these
  goroutines where they are started and leaves the channel out. Of the buffered channel
  \<open>sem\<close> the model keeps the number of entries it holds: \<open>Clear\<close> makes a new, empty
  channel, and \<open>insertIntervalM\<close> leaves it full. Below \<open>numG * 10\<close> endpoints a
  build runs in one task (\<open>single\<close>).
\<close>

record mtree = stree +
  sem :: nat
  numG :: nat
  single :: bool

definition P_LEVEL :: nat where
  "P_LEVEL = 6"

definition mtree_Clear :: "mtree \<Rightarrow> mtree" where
  "mtree_Clear t =
     t\<lparr>count := 0, root := None, base := [], min' := 0, max' := 0,
       numG := 2 ^ P_LEVEL, sem := 0, single := False\<rparr>"

definition NewMTree :: mtree where
  "NewMTree =
     mtree_Clear \<lparr>count = 0, root = None, base = [], min' = 0, max' = 0,
                  sem = 0, numG = 0, single = False\<rparr>"

definition mtree_Push :: "mtree \<Rightarrow> int \<Rightarrow> int \<Rightarrow> mtree" where
  "mtree_Push t from to =
     t\<lparr>base := base t @ [\<lparr>Id' = count t, Segment = \<lparr>From = from, To = to\<rparr>\<rparr>],
       count := wrap64 (count t + 1)\<rparr>"

text \<open>
  \<open>insertNodes\<close> works on the endpoints themselves. At level \<open>P_LEVEL\<close> of a build
  that is not \<open>single\<close> the two recursive calls run in goroutines that store their
  result in the child slot (\<open>insertNodesAsync\<close>) and \<open>BuildTree\<close> waits for all of
  them; the joined node is the same in both branches.
\<close>

function mtree_insertNodes :: "mtree \<Rightarrow> int list \<Rightarrow> nat \<Rightarrow> panic + mnode" where
  "mtree_insertNodes t endpoint level =
     (if length endpoint = 1 then
        Inr (Node \<lparr>From = endpoint ! 0, To = endpoint ! 0\<rparr> None None [])
      else if length endpoint = 2 then
        (if endpoint ! 1 \<noteq> max' t then
           Inr (Node \<lparr>From = endpoint ! 0, To = endpoint ! 1\<rparr>
                  (Some (Node \<lparr>From = endpoint ! 0, To = endpoint ! 0\<rparr> None None []))
                  (Some (Node \<lparr>From = endpoint ! 1, To = endpoint ! 1\<rparr> None None [])) [])
         else Inr (Node \<lparr>From = endpoint ! 0, To = endpoint ! 1\<rparr> None None []))
      else if endpoint = [] then Inl RuntimeError
      else
        let seg = \<lparr>From = endpoint ! 0, To = endpoint ! (length endpoint - 1)\<rparr>;
            center = length endpoint div 2;
            level = level + 1
        in if level = P_LEVEL \<and> \<not> single t then
             (case mtree_insertNodes t (take (center + 1) endpoint) level of
                Inl e \<Rightarrow> Inl e
              | Inr l \<Rightarrow>
                  (case mtree_insertNodes t (drop (center + 1) endpoint) level of
                     Inl e \<Rightarrow> Inl e
                   | Inr r \<Rightarrow> Inr (Node seg (Some l) (Some r) [])))
           else
             (case mtree_insertNodes t (take (center + 1) endpoint) level of
                Inl e \<Rightarrow> Inl e
              | Inr l \<Rightarrow>
                  (case mtree_insertNodes t (drop (center + 1) endpoint) level of
                     Inl e \<Rightarrow> Inl e
                   | Inr r \<Rightarrow> Inr (Node seg (Some l) (Some r) []))))"
  by pat_completeness auto
termination
proof -
  have small: "length (take (length endpoint div 2 + 1) endpoint) < length endpoint
      \<and> length (drop (length endpoint div 2 + 1) endpoint) < length endpoint"
    if "length endpoint \<noteq> 1" "length endpoint \<noteq> 2" "endpoint \<noteq> []"
    for endpoint :: "int list"
  proof -
    from that have "length endpoint \<noteq> 0" "length endpoint \<noteq> 1" "length endpoint \<noteq> 2"
      by simp_all
    then have "3 \<le> length endpoint"
      by arith
    then show ?thesis
      by auto
  qed
  show ?thesis
    by (relation "measure (\<lambda>(t, endpoint, level). length endpoint)") (use small in auto)
qed

text \<open>
  \<open>mtree.insertInterval\<close> takes the node's lock around the append and is otherwise
  the \<open>CompareTo\<close> formulation. The function below is one insertion made without
  interruption, as in a build in one task.
\<close>

fun mtree_insertInterval :: "mnode \<Rightarrow> Interval \<Rightarrow> mnode" where
  "mtree_insertInterval (Node seg l r ov) intrvl =
     (case CompareTo seg (Segment intrvl) of
        SUBSET \<Rightarrow> Node seg l r (ov @ [intrvl])
      | INTERSECT_OR_SUPERSET \<Rightarrow>
          let l = (case l of None \<Rightarrow> None | Some ln \<Rightarrow> Some (mtree_insertInterval ln intrvl));
              r = (case r of None \<Rightarrow> None | Some rn \<Rightarrow> Some (mtree_insertInterval rn intrvl))
          in Node seg l r ov
      | DISJOINT \<Rightarrow> Node seg l r ov)"

text \<open>
  \<open>insertIntervalM\<close> starts one goroutine for each staged interval, in staging order.
  Before it starts one it sends on \<open>sem\<close>, which has room for \<open>numG\<close> entries, and
  a goroutine receives from \<open>sem\<close> when its insertion is done; at the end the builder
  sends \<open>numG\<close> times more, which succeeds once every goroutine is done and leaves the
  channel full. While the goroutines run, the segments and children of the tree, which
  alone decide where an insertion goes, no longer change; what a goroutine does to the
  tree is therefore a sequence of appends, each under the lock of its node:
  \<open>targets\<close> lists the nodes, as paths from the root (\<open>False\<close> for left, \<open>True\<close> for
  right) in the order of the traversal, and \<open>append_at\<close> is one append. Made in a row,
  the appends of one goroutine are \<open>mtree_insertInterval\<close> (lemma
  \<open>mtree_insertInterval_steps\<close>).
\<close>

type_synonym path = "bool list"

fun targets :: "mnode \<Rightarrow> Interval \<Rightarrow> path list" where
  "targets (Node seg l r ov) intrvl =
     (case CompareTo seg (Segment intrvl) of
        SUBSET \<Rightarrow> [[]]
      | INTERSECT_OR_SUPERSET \<Rightarrow>
          (case l of None \<Rightarrow> [] | Some ln \<Rightarrow> map ((#) False) (targets ln intrvl))
            @ (case r of None \<Rightarrow> [] | Some rn \<Rightarrow> map ((#) True) (targets rn intrvl))
      | DISJOINT \<Rightarrow> [])"

fun append_at :: "mnode \<Rightarrow> path \<Rightarrow> Interval \<Rightarrow> mnode" where
  "append_at (Node seg l r ov) [] intrvl = Node seg l r (ov @ [intrvl])"
| "append_at (Node seg l r ov) (d # p) intrvl =
     (if d then
        Node seg l (case r of None \<Rightarrow> None | Some rn \<Rightarrow> Some (append_at rn p intrvl)) ov
      else
        Node seg (case l of None \<Rightarrow> None | Some ln \<Rightarrow> Some (append_at ln p intrvl)) r ov)"

text \<open>
  How the appends of different goroutines interleave is up to the scheduler. A state of
  the insertion is the tree, the goroutines that are started and not yet done, each with
  its interval and the appends it has still to make, and the intervals that wait for
  their goroutine. A schedule is a list of turns: \<open>Start\<close> lets the builder start the
  next goroutine, if \<open>sem\<close> has room; \<open>Advance j\<close> lets the \<open>j\<close>-th running goroutine
  make its next append or, when none is left, receive from \<open>sem\<close> and end. A turn that
  cannot be taken is skipped; \<open>room\<close> is the number of goroutines that \<open>sem\<close> admits
  at a time. When the schedule is used up, \<open>drain\<close> lets the running goroutines finish
  one after another and then runs the waiting intervals in turn.
\<close>

datatype turn = Start | Advance nat

fun task_step ::
  "nat \<Rightarrow> mnode \<times> (Interval \<times> path list) list \<times> Interval list \<Rightarrow> turn \<Rightarrow>
   mnode \<times> (Interval \<times> path list) list \<times> Interval list" where
  "task_step room (n, running, waiting) Start =
     (case waiting of
        [] \<Rightarrow> (n, running, waiting)
      | intrvl # waiting' \<Rightarrow>
          if length running < room then
            (n, running @ [(intrvl, targets n intrvl)], waiting')
          else (n, running, waiting))"
| "task_step room (n, running, waiting) (Advance j) =
     (if j < length running then
        (case running ! j of
           (intrvl, []) \<Rightarrow> (n, take j running @ drop (Suc j) running, waiting)
         | (intrvl, p # ps) \<Rightarrow>
             (append_at n p intrvl, running[j := (intrvl, ps)], waiting))
      else (n, running, waiting))"

definition run_task :: "mnode \<Rightarrow> Interval \<times> path list \<Rightarrow> mnode" where
  "run_task n task = foldl (\<lambda>n p. append_at n p (fst task)) n (snd task)"

definition drain ::
  "mnode \<times> (Interval \<times> path list) list \<times> Interval list \<Rightarrow> mnode" where
  "drain st =
     (case st of
        (n, running, waiting) \<Rightarrow>
          foldl mtree_insertInterval (foldl run_task n running) waiting)"

text \<open>
  The first send blocks for ever on a channel without buffer, and the last \<open>numG\<close>
  sends block for ever when the channel held an entry at the start, as it does after an
  earlier parallel build without \<open>Clear\<close> in between.
\<close>

definition insertIntervalM ::
  "turn list \<Rightarrow> mtree \<Rightarrow> mnode \<Rightarrow> panic + (mnode \<times> mtree)" where
  "insertIntervalM sch t n =
     (if (base t \<noteq> [] \<and> numG t = 0) \<or> (numG t \<noteq> 0 \<and> sem t \<noteq> 0) then
        Inl Blocked
      else
        Inr (drain (foldl (task_step (numG t - sem t)) (n, [], base t) sch),
             t\<lparr>sem := sem t + numG t\<rparr>))"

text \<open>
  \<open>BuildTree\<close> takes the schedule of its insertion as an argument; a build in one task
  does not use it.
\<close>

definition mtree_BuildTree :: "turn list \<Rightarrow> mtree \<Rightarrow> panic + mtree" where
  "mtree_BuildTree sch t =
     (if length (base t) = 0 then Inl NoIntervals
      else case Endpoints (base t) of
        Inl e \<Rightarrow> Inl e
      | Inr (endpoint, mn, mx) \<Rightarrow>
          let t = t\<lparr>min' := mn, max' := mx\<rparr>;
              t = (if length endpoint < numG t * 10 then t\<lparr>single := True\<rparr> else t)
          in case mtree_insertNodes t endpoint 0 of
               Inl e \<Rightarrow> Inl e
             | Inr n \<Rightarrow>
                 if \<not> single t then
                   (case insertIntervalM sch t n of
                      Inl e \<Rightarrow> Inl e
                    | Inr (n, t) \<Rightarrow> Inr (t\<lparr>root := Some n\<rparr>))
                 else Inr (t\<lparr>root := Some (foldl mtree_insertInterval n (base t))\<rparr>))"

section \<open>The parallel tree walker\<close>

text \<open>
  A query shares one \<open>twalker\<close>: \<open>queue\<close> counts the entries of the buffered channel
  that admits goroutines (nothing ever receives from it), \<open>result_chan\<close> holds the maps
  sent to the channel \<open>result\<close>, oldest first. A goroutine is modelled as run to its end
  where it is started, so the wait group is at zero whenever the starting task goes on.
  Which send attempts find room in \<open>queue\<close> depends on how the tasks interleave:
  \<open>sched\<close> lists, for the coming attempts in the order the model makes them, whether
  the attempt comes before other tasks have taken the room; once the list is used up
  every attempt succeeds while the model's own count leaves room.
\<close>

record twalker =
  num :: nat
  queue :: nat
  result_chan :: "(int \<rightharpoonup> Interval) list"
  sched :: "bool list"

definition twalker_init :: "nat \<Rightarrow> bool list \<Rightarrow> twalker" where
  "twalker_init n ds = \<lparr>num = n, queue = 0, result_chan = [], sched = ds\<rparr>"

text \<open>The \<open>select\<close> with a send on \<open>queue\<close> and a default case.\<close>

definition select_queue :: "twalker \<Rightarrow> bool \<times> twalker" where
  "select_queue tw =
     (case sched tw of
        [] \<Rightarrow>
          if queue tw < num tw then (True, tw\<lparr>queue := queue tw + 1\<rparr>) else (False, tw)
      | d # ds \<Rightarrow>
          if d \<and> queue tw < num tw then (True, tw\<lparr>queue := queue tw + 1, sched := ds\<rparr>)
          else (False, tw\<lparr>sched := ds\<rparr>))"

definition collect :: "twalker \<Rightarrow> (int \<rightharpoonup> Interval) \<Rightarrow> (int \<rightharpoonup> Interval)" where
  "collect tw result =
     foldl (\<lambda>result rmap. result ++ rmap) result (take (num tw) (result_chan tw))"

fun querySingle_m ::
  "mnode \<Rightarrow> int \<Rightarrow> int \<Rightarrow> (int \<rightharpoonup> Interval) \<Rightarrow> twalker \<Rightarrow> bool \<Rightarrow>
   (int \<rightharpoonup> Interval) \<times> twalker" where
  "querySingle_m (Node seg l r ov) from to result tw back =
     (let (result, tw) =
        (if \<not> Disjoint seg from to then
           let result = addOverlap ov result;
               (result, tw) =
                 (case r of
                    None \<Rightarrow> (result, tw)
                  | Some rn \<Rightarrow>
                      let (sent, tw) = select_queue tw in
                      if sent then
                        (result, snd (querySingle_m rn from to Map.empty tw True))
                      else querySingle_m rn from to result tw False)
           in (case l of
                 None \<Rightarrow> (result, tw)
               | Some ln \<Rightarrow>
                   let (sent, tw) = select_queue tw in
                   if sent then
                     (result, snd (querySingle_m ln from to Map.empty tw True))
                   else querySingle_m ln from to result tw False)
         else (result, tw))
      in if back then (result, tw\<lparr>result_chan := result_chan tw @ [result]\<rparr>)
         else (result, tw))"

text \<open>
  \<open>NUM_WORKER\<close> is a package variable set from the number of processors; the model
  takes it, and the schedule, as arguments.
\<close>

definition mtree_Query ::
  "nat \<Rightarrow> bool list \<Rightarrow> mtree \<Rightarrow> int \<Rightarrow> int \<Rightarrow> panic + ((int \<rightharpoonup> Interval) \<times> mtree)" where
  "mtree_Query NUM_WORKER ds t from to =
     (case root t of
        None \<Rightarrow> Inl EmptyTree
      | Some n \<Rightarrow>
          let (result, tw) = querySingle_m n from to Map.empty (twalker_init NUM_WORKER ds) False
          in Inr (collect tw result, t))"

text \<open>
  The parallel \<open>queryMulti\<close>. Its four recursive calls pass \<open>from\<close> and \<open>to\<close>.
\<close>

fun queryMulti_m ::
  "mnode \<Rightarrow> int list \<Rightarrow> int list \<Rightarrow> (int \<rightharpoonup> Interval) \<Rightarrow> twalker \<Rightarrow> bool \<Rightarrow>
   panic + ((int \<rightharpoonup> Interval) \<times> twalker)" where
  "queryMulti_m (Node seg l r ov) from to result tw back =
     (case queryMulti_loop seg ov from to (result, [], []) of
        Inl e \<Rightarrow> Inl e
      | Inr (result, hitsFrom, hitsTo) \<Rightarrow>
          (case
             (if length hitsFrom \<noteq> 0 then
                (case
                   (case r of
                      None \<Rightarrow> Inr (result, tw)
                    | Some rn \<Rightarrow>
                        let (sent, tw) = select_queue tw in
                        if sent then
                          (case queryMulti_m rn from to Map.empty tw True of
                             Inl e \<Rightarrow> Inl e
                           | Inr (newMap, tw) \<Rightarrow> Inr (result, tw))
                        else queryMulti_m rn from to result tw False)
                 of
                   Inl e \<Rightarrow> Inl e
                 | Inr (result, tw) \<Rightarrow>
                     (case l of
                        None \<Rightarrow> Inr (result, tw)
                      | Some ln \<Rightarrow>
                          let (sent, tw) = select_queue tw in
                          if sent then
                            (case queryMulti_m ln from to Map.empty tw True of
                               Inl e \<Rightarrow> Inl e
                             | Inr (newMap, tw) \<Rightarrow> Inr (result, tw))
                          else queryMulti_m ln from to result tw False))
              else Inr (result, tw))
           of
             Inl e \<Rightarrow> Inl e
           | Inr (result, tw) \<Rightarrow>
               if back then Inr (result, tw\<lparr>result_chan := result_chan tw @ [result]\<rparr>)
               else Inr (result, tw)))"

definition mtree_QueryArray ::
  "nat \<Rightarrow> bool list \<Rightarrow> mtree \<Rightarrow> int list \<Rightarrow> int list \<Rightarrow>
   panic + ((int \<rightharpoonup> Interval) \<times> mtree)" where
  "mtree_QueryArray NUM_WORKER ds t from to =
     (case root t of
        None \<Rightarrow> Inl EmptyTree
      | Some n \<Rightarrow>
          (case queryMulti_m n from to Map.empty (twalker_init NUM_WORKER ds) False of
             Inl e \<Rightarrow> Inl e
           | Inr (result, tw) \<Rightarrow> Inr (collect tw result, t)))"

chapter \<open>Notions for the properties\<close>

section \<open>Observing a tree\<close>

text \<open>The node with all its descendants, and the descendants alone.\<close>

fun nodes :: "node \<Rightarrow> node list" where
  "nodes (Node seg l r ov) =
     Node seg l r ov # (case l of None \<Rightarrow> [] | Some ln \<Rightarrow> nodes ln)
       @ (case r of None \<Rightarrow> [] | Some rn \<Rightarrow> nodes rn)"

definition descendants :: "node \<Rightarrow> node list" where
  "descendants n = tl (nodes n)"

text \<open>The segments of the leaves below a node, from left to right.\<close>

fun leaves :: "node \<Rightarrow> Segment list" where
  "leaves (Node seg l r ov) =
     (if l = None \<and> r = None then [seg]
      else (case l of None \<Rightarrow> [] | Some ln \<Rightarrow> leaves ln)
         @ (case r of None \<Rightarrow> [] | Some rn \<Rightarrow> leaves rn))"

text \<open>The integers of a closed segment.\<close>

definition points :: "Segment \<Rightarrow> int set" where
  "points s = {x. From s \<le> x \<and> x \<le> To s}"

text \<open>
  The intervals a single-range query meets: the overlap lists of the nodes it enters.
\<close>

fun found :: "node \<Rightarrow> int \<Rightarrow> int \<Rightarrow> Interval set" where
  "found (Node seg l r ov) from to =
     (if \<not> Disjoint seg from to then
        set ov \<union> (case r of None \<Rightarrow> {} | Some rn \<Rightarrow> found rn from to)
          \<union> (case l of None \<Rightarrow> {} | Some ln \<Rightarrow> found ln from to)
      else {})"

text \<open>Every entry of a result map is stored under its own id.\<close>

definition keyed :: "(int \<rightharpoonup> Interval) \<Rightarrow> bool" where
  "keyed result = (\<forall>k v. result k = Some v \<longrightarrow> Id' v = k)"

text \<open>All intervals stored anywhere in a tree.\<close>

fun entries :: "node \<Rightarrow> Interval set" where
  "entries (Node seg l r ov) =
     set ov \<union> (case l of None \<Rightarrow> {} | Some ln \<Rightarrow> entries ln)
       \<union> (case r of None \<Rightarrow> {} | Some rn \<Rightarrow> entries rn)"

text \<open>
  \<open>spans\<close>: every node's segment reaches from the lowest to the highest bound of its
  leaves. \<open>nested\<close>: every node's segment is well formed and contains the segments of
  its children. \<open>canonical\<close>: every stored interval contains the segment of the node
  that stores it and of none of that node's ancestors, whose segments are passed along.
\<close>

fun spans :: "node \<Rightarrow> bool" where
  "spans (Node seg l r ov) =
     ((\<forall>L \<in> set (leaves (Node seg l r ov)). From seg \<le> From L \<and> To L \<le> To seg)
      \<and> (case l of None \<Rightarrow> True | Some ln \<Rightarrow> spans ln)
      \<and> (case r of None \<Rightarrow> True | Some rn \<Rightarrow> spans rn))"

fun nested :: "node \<Rightarrow> bool" where
  "nested (Node seg l r ov) =
     (From seg \<le> To seg
      \<and> (case l of None \<Rightarrow> True | Some ln \<Rightarrow> subsetOf (segment ln) seg \<and> nested ln)
      \<and> (case r of None \<Rightarrow> True | Some rn \<Rightarrow> subsetOf (segment rn) seg \<and> nested rn))"

fun canonical :: "Segment list \<Rightarrow> node \<Rightarrow> bool" where
  "canonical anc (Node seg l r ov) =
     ((\<forall>i \<in> set ov. subsetOf seg (Segment i) \<and> (\<forall>a \<in> set anc. \<not> subsetOf a (Segment i)))
      \<and> (case l of None \<Rightarrow> True | Some ln \<Rightarrow> canonical (seg # anc) ln)
      \<and> (case r of None \<Rightarrow> True | Some rn \<Rightarrow> canonical (seg # anc) rn))"

text \<open>A leaf sequence whose lower and upper bounds both ascend.\<close>

definition ascending :: "Segment list \<Rightarrow> bool" where
  "ascending ls =
     (sorted (map From ls) \<and> sorted (map To ls) \<and> (\<forall>L \<in> set ls. From L \<le> To L))"

text \<open>The ids a query call returns; none when it panics.\<close>

definition result_ids :: "panic + ((int \<rightharpoonup> Interval) \<times> 'a) \<Rightarrow> int set" where
  "result_ids out = (case out of Inl e \<Rightarrow> {} | Inr (result, t) \<Rightarrow> ids result)"

text \<open>
  One child visit of \<open>querySingle_m\<close>, and the ids held by the maps on the result
  channel.
\<close>

definition querySingle_m_child ::
  "mnode option \<Rightarrow> int \<Rightarrow> int \<Rightarrow> (int \<rightharpoonup> Interval) \<times> twalker \<Rightarrow>
   (int \<rightharpoonup> Interval) \<times> twalker" where
  "querySingle_m_child c from to st =
     (case c of
        None \<Rightarrow> st
      | Some cn \<Rightarrow>
          let (sent, tw) = select_queue (snd st) in
          if sent then (fst st, snd (querySingle_m cn from to Map.empty tw True))
          else querySingle_m cn from to (fst st) tw False)"

definition chan_ids :: "twalker \<Rightarrow> int set" where
  "chan_ids tw = (\<Union>rmap \<in> set (result_chan tw). dom rmap)"

text \<open>
  What one call of the parallel traversal does to the walker and the accumulator: the
  ids in \<open>S\<close> are added to the accumulator or to the channel, one map is sent for
  each admitted goroutine, and a call made with \<open>go\<close> sends its own accumulator.
\<close>

definition walked ::
  "(int \<rightharpoonup> Interval) \<times> twalker \<Rightarrow> bool \<Rightarrow> int set \<Rightarrow> (int \<rightharpoonup> Interval) \<times> twalker \<Rightarrow> bool"
  where
  "walked before back S after =
     (num (snd after) = num (snd before)
      \<and> queue (snd before) \<le> queue (snd after)
      \<and> (queue (snd before) \<le> num (snd before) \<longrightarrow> queue (snd after) \<le> num (snd before))
      \<and> length (result_chan (snd after)) + queue (snd before) =
          length (result_chan (snd before)) + queue (snd after) + (if back then 1 else 0)
      \<and> dom (fst after) \<union> chan_ids (snd after) =
          dom (fst before) \<union> chan_ids (snd before) \<union> S
      \<and> (back \<longrightarrow> dom (fst after) \<subseteq> chan_ids (snd after))
      \<and> (keyed (fst before) \<and> (\<forall>rmap \<in> set (result_chan (snd before)). keyed rmap) \<longrightarrow>
           keyed (fst after) \<and> (\<forall>rmap \<in> set (result_chan (snd after)). keyed rmap)))"

text \<open>
  \<open>tiled\<close>: at every node the segment is the union of the segments of its leaves, and
  the node has no child or two, the left one ending where the right one begins.
  \<open>chained\<close>: a leaf sequence of well-formed segments, each ending where the next begins.
\<close>

fun tiled :: "node \<Rightarrow> bool" where
  "tiled (Node seg l r ov) =
     (points seg = (\<Union>L \<in> set (leaves (Node seg l r ov)). points L)
      \<and> (case l of
           None \<Rightarrow> r = None
         | Some ln \<Rightarrow>
             (case r of
                None \<Rightarrow> False
              | Some rn \<Rightarrow> To (segment ln) = From (segment rn) \<and> tiled ln \<and> tiled rn)))"

fun chained :: "Segment list \<Rightarrow> bool" where
  "chained [] = True"
| "chained [L] = (From L \<le> To L)"
| "chained (L # M # ls) = (From L \<le> To L \<and> To L = From M \<and> chained (M # ls))"

section \<open>Observing a parallel insertion\<close>

text \<open>
  \<open>scheduled\<close>: what holds of every state of the parallel insertion: the tree is nested
  and canonical and holds staged intervals only, every running goroutine inserts a
  staged interval and has still to append at nodes that its traversal stops at, and the
  waiting intervals are staged.
\<close>

definition scheduled ::
  "Interval list \<Rightarrow> mnode \<times> (Interval \<times> path list) list \<times> Interval list \<Rightarrow> bool" where
  "scheduled base' st =
     (case st of
        (n, running, waiting) \<Rightarrow>
          nested n \<and> canonical [] n \<and> entries n \<subseteq> set base'
          \<and> (\<forall>task \<in> set running.
                fst task \<in> set base' \<and> set (snd task) \<subseteq> set (targets n (fst task)))
          \<and> set waiting \<subseteq> set base')"

text \<open>
  The node a path leads to, with its segment and the set of the intervals in its overlap
  list; the appends that a state has still to make, each with its node and its interval;
  and a node with the intervals that the appends of \<open>E\<close> at the path \<open>q\<close> add to it.
\<close>

fun node_at :: "node \<Rightarrow> path \<Rightarrow> (Segment \<times> Interval set) option" where
  "node_at (Node seg l r ov) [] = Some (seg, set ov)"
| "node_at (Node seg l r ov) (d # p) =
     (case (if d then r else l) of None \<Rightarrow> None | Some c \<Rightarrow> node_at c p)"

definition pending ::
  "mnode \<times> (Interval \<times> path list) list \<times> Interval list \<Rightarrow> (path \<times> Interval) set" where
  "pending st =
     (case st of
        (n, running, waiting) \<Rightarrow>
          {(p, i). \<exists>ps. (i, ps) \<in> set running \<and> p \<in> set ps}
          \<union> {(p, i). i \<in> set waiting \<and> p \<in> set (targets n i)})"

definition with_pending ::
  "(path \<times> Interval) set \<Rightarrow> path \<Rightarrow> Segment \<times> Interval set \<Rightarrow> Segment \<times> Interval set" where
  "with_pending E q = (\<lambda>(seg, S). (seg, S \<union> {i. (q, i) \<in> E}))"

section \<open>A small example\<close>

text \<open>
  Two staged intervals, \<open>[0,0]\<close> and \<open>[5,10]\<close>, pushed into a sequential and into a
  parallel tree, and the roots the two builds leave.
\<close>

definition staged :: stree where
  "staged = Push (Push NewTree 0 0) 5 10"

definition staged_m :: mtree where
  "staged_m = mtree_Push (mtree_Push NewMTree 0 0) 5 10"

definition I0 :: Interval where
  "I0 = \<lparr>Id' = 0, Segment = \<lparr>From = 0, To = 0\<rparr>\<rparr>"

definition I1 :: Interval where
  "I1 = \<lparr>Id' = 1, Segment = \<lparr>From = 5, To = 10\<rparr>\<rparr>"

definition built_root :: node where
  "built_root =
     Node \<lparr>From = 0, To = 10\<rparr>
       (Some (Node \<lparr>From = 0, To = 5\<rparr>
          (Some (Node \<lparr>From = 0, To = 0\<rparr> None None [I0]))
          (Some (Node \<lparr>From = 0, To = 5\<rparr> None None [])) []))
       (Some (Node \<lparr>From = 5, To = 10\<rparr>
          (Some (Node \<lparr>From = 5, To = 5\<rparr> None None []))
          (Some (Node \<lparr>From = 5, To = 10\<rparr>
             (Some (Node \<lparr>From = 5, To = 10\<rparr> None None []))
             (Some (Node \<lparr>From = 10, To = 10\<rparr> None None [])) [])) [I1]))
       []"

definition built_root_v1 :: node where
  "built_root_v1 =
     Node \<lparr>From = 0, To = 10\<rparr>
       (Some (Node \<lparr>From = 0, To = 0\<rparr> None None [I0]))
       (Some (Node \<lparr>From = 5, To = 10\<rparr>
          (Some (Node \<lparr>From = 5, To = 5\<rparr> None None []))
          (Some (Node \<lparr>From = 10, To = 10\<rparr> None None [])) [I1]))
       []"

definition built_root_m :: mnode where
  "built_root_m =
     Node \<lparr>From = 0, To = 10\<rparr>
       (Some (Node \<lparr>From = 0, To = 5\<rparr>
          (Some (Node \<lparr>From = 0, To = 0\<rparr> None None [I0]))
          (Some (Node \<lparr>From = 5, To = 5\<rparr> None None [I1])) []))
       (Some (Node \<lparr>From = 10, To = 10\<rparr> None None [I1]))
       []"

section \<open>The ranges a batched traversal carries\<close>

text \<open>
  The invocations of the sequential \<open>queryMulti\<close> that one call causes, itself first:
  each with the segment of the node it is made on and the two slices it receives. The
  recursive calls receive \<open>hitsFrom\<close> and \<open>hitsTo\<close>.
\<close>

fun queryMulti_calls ::
  "node \<Rightarrow> int list \<Rightarrow> int list \<Rightarrow> (Segment \<times> int list \<times> int list) list" where
  "queryMulti_calls (Node seg l r ov) from to =
     (seg, from, to) #
       (case queryMulti_loop seg ov from to (Map.empty, [], []) of
          Inl e \<Rightarrow> []
        | Inr (result, hitsFrom, hitsTo) \<Rightarrow>
            if length hitsFrom \<noteq> 0 then
              (case r of None \<Rightarrow> [] | Some rn \<Rightarrow> queryMulti_calls rn hitsFrom hitsTo)
                @ (case l of None \<Rightarrow> [] | Some ln \<Rightarrow> queryMulti_calls ln hitsFrom hitsTo)
            else [])"

text \<open>
  The same for the parallel \<open>queryMulti\<close>. Whether a child is visited by a new
  goroutine or by the current one, the call receives \<open>from\<close> and \<open>to\<close>.
\<close>

fun queryMulti_m_calls ::
  "mnode \<Rightarrow> int list \<Rightarrow> int list \<Rightarrow> (Segment \<times> int list \<times> int list) list" where
  "queryMulti_m_calls (Node seg l r ov) from to =
     (seg, from, to) #
       (case queryMulti_loop seg ov from to (Map.empty, [], []) of
          Inl e \<Rightarrow> []
        | Inr (result, hitsFrom, hitsTo) \<Rightarrow>
            if length hitsFrom \<noteq> 0 then
              (case r of None \<Rightarrow> [] | Some rn \<Rightarrow> queryMulti_m_calls rn from to)
                @ (case l of None \<Rightarrow> [] | Some ln \<Rightarrow> queryMulti_m_calls ln from to)
            else [])"

chapter \<open>Properties\<close>

section \<open>The elementary decomposition\<close>

lemma alternating_length: "length (alternating eps) = 2 * length eps - 1"
  by (induction eps rule: alternating.induct) auto

lemma alternating_nth:
  "j < 2 * length eps - 1 \<Longrightarrow>
   alternating eps ! j =
     (if even j then \<lparr>From = eps ! (j div 2), To = eps ! (j div 2)\<rparr>
      else \<lparr>From = eps ! (j div 2), To = eps ! (j div 2 + 1)\<rparr>)"
proof (induction eps arbitrary: j rule: alternating.induct)
  case 1
  then show ?case by simp
next
  case (2 p)
  then show ?case by simp
next
  case (3 p q ps)
  show ?case
  proof (cases j)
    case 0
    then show ?thesis by simp
  next
    case (Suc j1)
    show ?thesis
    proof (cases j1)
      case 0
      with Suc show ?thesis by simp
    next
      case (Suc j2)
      with \<open>j = Suc j1\<close> 3 show ?thesis by simp
    qed
  qed
qed

lemma body_length [simp]: "length (elementaryIntervals_body eps xs i) = length xs"
  by (simp add: elementaryIntervals_body_def Let_def)

lemma body_nth:
  "j < length xs \<Longrightarrow>
   elementaryIntervals_body eps xs i ! j =
     (if j = 2 * i + 1 \<and> i < length eps - 1
      then \<lparr>From = eps ! i, To = eps ! (i + 1)\<rparr>
      else if j = 2 * i then \<lparr>From = eps ! i, To = eps ! i\<rparr>
      else xs ! j)"
  by (auto simp: elementaryIntervals_body_def Let_def nth_list_update mult.commute)

lemma fill_length [simp]:
  "length (foldl (elementaryIntervals_body eps) init [0..<m]) = length init"
  by (induction m) auto

lemma fill_nth:
  assumes "j < length init" "length init = 2 * length eps - 1"
  shows "foldl (elementaryIntervals_body eps) init [0..<m] ! j =
     (if j div 2 < m then
        (if even j then \<lparr>From = eps ! (j div 2), To = eps ! (j div 2)\<rparr>
         else \<lparr>From = eps ! (j div 2), To = eps ! (j div 2 + 1)\<rparr>)
      else init ! j)"
proof (induction m)
  case 0
  then show ?case by simp
next
  case (Suc m)
  let ?prev = "foldl (elementaryIntervals_body eps) init [0..<m]"
  have step: "foldl (elementaryIntervals_body eps) init [0..<Suc m] ! j =
      (if j = 2 * m + 1 \<and> m < length eps - 1
       then \<lparr>From = eps ! m, To = eps ! (m + 1)\<rparr>
       else if j = 2 * m then \<lparr>From = eps ! m, To = eps ! m\<rparr>
       else ?prev ! j)"
    using assms(1) by (simp add: body_nth)
  have odd_small: "j div 2 < length eps - 1" if "odd j"
    using that assms by presburger
  have "j = 2 * m \<or> j = 2 * m + 1 \<or> j div 2 \<noteq> m"
    by presburger
  then consider "j = 2 * m" | "j = 2 * m + 1" | "j div 2 \<noteq> m"
    by blast
  then show ?case
  proof cases
    case 1
    then show ?thesis
      unfolding step by simp
  next
    case 2
    then have "m < length eps - 1"
      using odd_small by simp
    with 2 show ?thesis
      unfolding step by simp
  next
    case 3
    then have "j \<noteq> 2 * m" "j \<noteq> 2 * m + 1"
      by auto
    with 3 show ?thesis
      unfolding step Suc by (auto simp: less_Suc_eq)
  qed
qed

lemma elementaryIntervals_alternating:
  assumes "endpoints \<noteq> []"
  shows "elementaryIntervals endpoints = Inr (alternating endpoints)"
proof (cases "length endpoints = 1")
  case True
  then obtain p where "endpoints = [p]"
    by (cases endpoints) auto
  then show ?thesis
    by (simp add: elementaryIntervals_def)
next
  case False
  let ?init = "replicate (length endpoints * 2 - 1) \<lparr>From = 0, To = 0\<rparr>"
  have fold: "elementaryIntervals endpoints =
      Inr (foldl (elementaryIntervals_body endpoints) ?init [0..<length endpoints])"
    using False assms by (simp add: elementaryIntervals_def)
  have "foldl (elementaryIntervals_body endpoints) ?init [0..<length endpoints] = alternating endpoints"
  proof (rule nth_equalityI)
    show "length (foldl (elementaryIntervals_body endpoints) ?init [0..<length endpoints]) =
        length (alternating endpoints)"
      by (simp add: alternating_length mult.commute)
  next
    fix j
    assume "j < length (foldl (elementaryIntervals_body endpoints) ?init [0..<length endpoints])"
    then have j: "j < 2 * length endpoints - 1"
      by (simp add: mult.commute)
    then have "j div 2 < length endpoints"
      by presburger
    with j show "foldl (elementaryIntervals_body endpoints) ?init [0..<length endpoints] ! j =
        alternating endpoints ! j"
      by (simp add: fill_nth alternating_nth mult.commute)
  qed
  with fold show ?thesis
    by simp
qed


text \<open>
  Claim C2. For every endpoint list with at least one element (in particular every sorted
  list without duplicates), \<open>elementaryIntervals\<close> returns the alternating sequence of
  point and gap segments, in this order: position \<open>2i\<close> holds \<open>[p\<^sub>i, p\<^sub>i]\<close>, position
  \<open>2i+1\<close> holds \<open>[p\<^sub>i, p\<^sub>i\<^sub>+\<^sub>1]\<close>, the length is \<open>2k-1\<close>, and a single endpoint gives the
  single degenerate segment.
\<close>

theorem elementaryIntervals_leaves:
  assumes "endpoints \<noteq> []"
  shows "elementaryIntervals endpoints = Inr (alternating endpoints)
    \<and> length (alternating endpoints) = 2 * length endpoints - 1
    \<and> (\<forall>i < length endpoints.
          alternating endpoints ! (2 * i) = \<lparr>From = endpoints ! i, To = endpoints ! i\<rparr>)
    \<and> (\<forall>i. i + 1 < length endpoints \<longrightarrow>
          alternating endpoints ! (2 * i + 1) =
            \<lparr>From = endpoints ! i, To = endpoints ! (i + 1)\<rparr>)
    \<and> elementaryIntervals [p] = Inr [\<lparr>From = p, To = p\<rparr>]"
proof -
  have "alternating endpoints ! (2 * i) = \<lparr>From = endpoints ! i, To = endpoints ! i\<rparr>"
    if "i < length endpoints" for i
  proof -
    from that have "2 * i < 2 * length endpoints - 1" by arith
    then show ?thesis by (simp add: alternating_nth)
  qed
  moreover have "alternating endpoints ! (2 * i + 1) =
      \<lparr>From = endpoints ! i, To = endpoints ! (i + 1)\<rparr>"
    if "i + 1 < length endpoints" for i
  proof -
    from that have "2 * i + 1 < 2 * length endpoints - 1" by arith
    then show ?thesis by (simp add: alternating_nth)
  qed
  moreover have "elementaryIntervals [p] = Inr [\<lparr>From = p, To = p\<rparr>]"
    by (simp add: elementaryIntervals_def)
  ultimately show ?thesis
    using assms by (simp add: elementaryIntervals_alternating alternating_length)
qed

theorem elementaryIntervals_leaves_witness:
  "[1, 4, 9 :: int] \<noteq> []
   \<and> elementaryIntervals [1, 4, 9] =
       Inr [\<lparr>From = 1, To = 1\<rparr>, \<lparr>From = 1, To = 4\<rparr>, \<lparr>From = 4, To = 4\<rparr>,
            \<lparr>From = 4, To = 9\<rparr>, \<lparr>From = 9, To = 9\<rparr>]"
  using elementaryIntervals_leaves [of "[1, 4, 9]"]
  by simp

section \<open>Preconditions\<close>

text \<open>
  Claim C7. \<open>BuildTree\<close> on an empty staging slice panics and yields no tree, and
  \<open>Query\<close> and \<open>QueryArray\<close> panic while the root is nil, for the sequential and for
  the parallel tree alike; the panic is the whole outcome of the call.
\<close>

theorem preconditions_fatal:
  "(base t = [] \<longrightarrow> BuildTree t = Inl NoIntervals)
   \<and> (root t = None \<longrightarrow>
        Query t from to = Inl EmptyTree \<and> QueryArray t froms tos = Inl EmptyTree)
   \<and> (base m = [] \<longrightarrow> mtree_BuildTree sch m = Inl NoIntervals)
   \<and> (root m = None \<longrightarrow>
        mtree_Query w ds m from to = Inl EmptyTree
        \<and> mtree_QueryArray w ds m froms tos = Inl EmptyTree)"
  by (simp add: BuildTree_def Query_def QueryArray_def mtree_BuildTree_def mtree_Query_def
      mtree_QueryArray_def)

theorem preconditions_fatal_witness:
  "base NewTree = [] \<and> root (Push NewTree 3 7) = None
   \<and> base NewMTree = [] \<and> root (mtree_Push NewMTree 3 7) = None
   \<and> BuildTree NewTree = Inl NoIntervals
   \<and> Query (Push NewTree 3 7) 1 2 = Inl EmptyTree
   \<and> QueryArray (Push NewTree 3 7) [1] [2] = Inl EmptyTree
   \<and> mtree_BuildTree [] NewMTree = Inl NoIntervals
   \<and> mtree_Query 4 [] (mtree_Push NewMTree 3 7) 1 2 = Inl EmptyTree
   \<and> mtree_QueryArray 4 [] (mtree_Push NewMTree 3 7) [1] [2] = Inl EmptyTree"
  using preconditions_fatal [of NewTree 1 2 "[1]" "[2]" NewMTree "[]" 4 "[]"]
    preconditions_fatal
      [of "Push NewTree 3 7" 1 2 "[1]" "[2]" "mtree_Push NewMTree 3 7" "[]" 4 "[]"]
  by (simp add: NewTree_def Clear_def Push_def NewMTree_def mtree_Clear_def mtree_Push_def)

section \<open>The serial structure\<close>

lemma serial_Query_filter:
  "serial_Query t from to = filter (\<lambda>intrvl. \<not> Disjoint (Segment intrvl) from to) (base t)"
proof -
  have "foldl (\<lambda>result intrvl.
              if \<not> Disjoint (Segment intrvl) from to then result @ [intrvl] else result) acc xs
        = acc @ filter (\<lambda>intrvl. \<not> Disjoint (Segment intrvl) from to) xs"
    for acc and xs :: "Interval list"
    by (induction xs arbitrary: acc) auto
  then show ?thesis
    by (simp add: serial_Query_def)
qed

lemma serial_QueryArray_loop_concat:
  "length from \<le> length to \<Longrightarrow>
   serial_QueryArray_loop t from to result =
     Inr (result @ concat (map (\<lambda>(f, t'). serial_Query t f t') (zip from to)))"
  by (induction t "from" to result rule: serial_QueryArray_loop.induct) auto


text \<open>
  Claim C10. The serial structure's \<open>BuildTree\<close>, \<open>Print\<close> and \<open>Tree2Array\<close> always
  panic; its \<open>Query\<close> returns the staged intervals that are not disjoint from the probe,
  whatever the root is, and its \<open>QueryArray\<close> returns the concatenation of the per-range
  answers, so that an interval meeting two probe ranges is listed twice.
\<close>

theorem serial_lifecycle:
  "serial_BuildTree t = Inl NotSupported \<and> serial_Print t = Inl NotSupported
   \<and> serial_Tree2Array t = Inl NotSupported
   \<and> serial_Query t from to =
       filter (\<lambda>intrvl. \<not> Disjoint (Segment intrvl) from to) (base t)
   \<and> (length froms \<le> length tos \<longrightarrow>
        serial_QueryArray t froms tos =
          Inr (concat (map (\<lambda>(f, t'). serial_Query t f t') (zip froms tos))))
   \<and> root (Push NewTree 0 10) = None
   \<and> serial_QueryArray (Push NewTree 0 10) [1, 2] [1, 2] =
       Inr [\<lparr>Id' = 0, Segment = \<lparr>From = 0, To = 10\<rparr>\<rparr>,
            \<lparr>Id' = 0, Segment = \<lparr>From = 0, To = 10\<rparr>\<rparr>]"
  by (simp add: serial_BuildTree_def serial_Print_def serial_Tree2Array_def
      serial_Query_filter serial_QueryArray_def serial_QueryArray_loop_concat
      NewTree_def Clear_def Push_def Disjoint_def)

theorem serial_lifecycle_witness:
  "length [1, 5 :: int] \<le> length [3, 9 :: int]
   \<and> serial_QueryArray (Push (Push NewTree 0 2) 4 6) [1, 5] [3, 9] =
       Inr [\<lparr>Id' = 0, Segment = \<lparr>From = 0, To = 2\<rparr>\<rparr>,
            \<lparr>Id' = 1, Segment = \<lparr>From = 4, To = 6\<rparr>\<rparr>]"
  using serial_lifecycle [of "Push (Push NewTree 0 2) 4 6" 0 0 "[1, 5]" "[3, 9]"]
  by (simp add: serial_Query_filter NewTree_def Clear_def Push_def Disjoint_def wrap64_def)


section \<open>Result maps and single-range queries\<close>

lemma keyed_ids: "keyed result \<Longrightarrow> ids result = dom result"
proof
  assume k: "keyed result"
  show "ids result \<subseteq> dom result"
  proof
    fix x assume "x \<in> ids result"
    then obtain v where "v \<in> ran result" "x = Id' v"
      by (auto simp: ids_def)
    then obtain key where "result key = Some v"
      by (auto simp: ran_def)
    with k \<open>x = Id' v\<close> show "x \<in> dom result"
      by (auto simp: keyed_def)
  qed
  show "dom result \<subseteq> ids result"
  proof
    fix x assume "x \<in> dom result"
    then obtain v where v: "result x = Some v"
      by auto
    with k have "Id' v = x"
      by (simp add: keyed_def)
    moreover from v have "v \<in> ran result"
      by (auto simp: ran_def)
    ultimately show "x \<in> ids result"
      by (auto simp: ids_def)
  qed
qed

lemma keyed_empty [simp]: "keyed Map.empty"
  by (simp add: keyed_def)

lemma keyed_upd: "keyed result \<Longrightarrow> keyed (result(Id' v \<mapsto> v))"
  by (simp add: keyed_def)

lemma addOverlap_dom: "dom (addOverlap ov result) = dom result \<union> Id' ` set ov"
  unfolding addOverlap_def by (induction ov arbitrary: result) auto

lemma addOverlap_keyed: "keyed result \<Longrightarrow> keyed (addOverlap ov result)"
  unfolding addOverlap_def by (induction ov arbitrary: result) (simp_all add: keyed_upd)

lemma querySingle_dom:
  "dom (querySingle n from to result) = dom result \<union> Id' ` found n from to"
proof (induction n arbitrary: result)
  case (Node seg l r ov)
  have l: "dom (querySingle ln from to res) = dom res \<union> Id' ` found ln from to"
    if "l = Some ln" for ln res
    using that Node.IH(1) [of ln res] by simp
  have r: "dom (querySingle rn from to res) = dom res \<union> Id' ` found rn from to"
    if "r = Some rn" for rn res
    using that Node.IH(2) [of rn res] by simp
  show ?case
  proof (cases "Disjoint seg from to")
    case True
    then show ?thesis by simp
  next
    case False
    then show ?thesis
      by (auto simp: l r addOverlap_dom Let_def  split: option.splits)
  qed
qed


lemma querySingle_keyed: "keyed result \<Longrightarrow> keyed (querySingle n from to result)"
proof (induction n arbitrary: result)
  case (Node seg l r ov)
  have l: "keyed (querySingle ln from to res)" if "l = Some ln" "keyed res" for ln res
    using that Node.IH(1) [of ln res] by simp
  have r: "keyed (querySingle rn from to res)" if "r = Some rn" "keyed res" for rn res
    using that Node.IH(2) [of rn res] by simp
  from Node.prems show ?case
    by (auto simp: l r addOverlap_keyed Let_def split: option.splits)
qed

lemma found_mono:
  "from \<le> x \<Longrightarrow> x \<le> to \<Longrightarrow> found n x x \<subseteq> found n from to"
proof (induction n)
  case (Node seg l r ov)
  have d: "\<not> Disjoint seg x x \<Longrightarrow> \<not> Disjoint seg from to"
    using Node.prems by (auto simp: Disjoint_def)
  have l: "found ln x x \<subseteq> found ln from to" if "l = Some ln" for ln
    using that Node.IH(1) [of ln] Node.prems by simp
  have r: "found rn x x \<subseteq> found rn from to" if "r = Some rn" for rn
    using that Node.IH(2) [of rn] Node.prems by simp
  show ?case
    using d l r by (auto split: option.splits)
qed

section \<open>What insertion preserves\<close>

lemma node_induct [case_names Node]:
  assumes "\<And>seg l r ov.
      (\<And>ln. l = Some ln \<Longrightarrow> P ln) \<Longrightarrow> (\<And>rn. r = Some rn \<Longrightarrow> P rn) \<Longrightarrow> P (Node seg l r ov)"
  shows "P n"
  using assms by (induction n) auto

lemma insertInterval_segment [simp]: "segment (insertInterval n i) = segment n"
  by (cases n) (simp add: Let_def)

lemma insertInterval_leaves [simp]: "leaves (insertInterval n i) = leaves n"
proof (induction n rule: node_induct)
  case (Node seg l r ov)
  then show ?case
    by (auto simp: Let_def split: option.splits)
qed

lemma insertInterval_spans [simp]: "spans (insertInterval n i) = spans n"
proof (induction n rule: node_induct)
  case (Node seg l r ov)
  have "leaves (insertInterval (Node seg l r ov) i) = leaves (Node seg l r ov)"
    by (rule insertInterval_leaves)
  then show ?case
    using Node by (auto simp: Let_def split: option.splits)
qed

lemma insertInterval_nested [simp]: "nested (insertInterval n i) = nested n"
proof (induction n rule: node_induct)
  case (Node seg l r ov)
  then show ?case
    by (auto simp: Let_def split: option.splits)
qed

lemma insertInterval_entries:
  "entries (insertInterval n i) \<subseteq> insert i (entries n)"
proof (induction n rule: node_induct)
  case (Node seg l r ov)
  then show ?case
    by (auto simp: Let_def split: option.splits)
qed

lemma found_entries: "found n from to \<subseteq> entries n"
proof (induction n rule: node_induct)
  case (Node seg l r ov)
  then show ?case
    by (auto split: option.splits)
qed

lemma insertInterval_found_grows:
  "found n from to \<subseteq> found (insertInterval n i) from to"
proof (induction n rule: node_induct)
  case (Node seg l r ov)
  then show ?case
    by (auto simp: Let_def split: option.splits)
qed

lemma insertInterval_canonical:
  "canonical anc n \<Longrightarrow> \<forall>a \<in> set anc. \<not> subsetOf a (Segment i) \<Longrightarrow>
   canonical anc (insertInterval n i)"
proof (induction n arbitrary: anc rule: node_induct)
  case (Node seg l r ov)
  show ?case
  proof (cases "subsetOf seg (Segment i)")
    case True
    with Node.prems show ?thesis by simp
  next
    case False
    with Node.prems have anc: "\<forall>a \<in> set (seg # anc). \<not> subsetOf a (Segment i)"
      by simp
    have "canonical (seg # anc) (insertInterval ln i)" if "l = Some ln" for ln
      using that Node.prems(1) by (intro Node.IH(1) anc) auto
    moreover have "canonical (seg # anc) (insertInterval rn i)" if "r = Some rn" for rn
      using that Node.prems(1) by (intro Node.IH(2) anc) auto
    ultimately show ?thesis
      using False Node.prems(1) by (auto simp: Let_def split: option.splits)
  qed
qed

lemma canonical_found_sound:
  "canonical anc n \<Longrightarrow> i \<in> found n from to \<Longrightarrow> \<not> Disjoint (Segment i) from to"
proof (induction n arbitrary: anc rule: node_induct)
  case (Node seg l r ov)
  from Node.prems(2) have nd: "\<not> Disjoint seg from to"
    by (auto split: if_splits)
  from Node.prems(2) nd consider "i \<in> set ov"
    | rn where "r = Some rn" "i \<in> found rn from to"
    | ln where "l = Some ln" "i \<in> found ln from to"
    by (auto split: option.splits)
  then show ?case
  proof cases
    case 1
    with Node.prems(1) have "subsetOf seg (Segment i)"
      by simp
    with nd show ?thesis
      by (auto simp: subsetOf_def Disjoint_def)
  next
    case 2
    with Node.prems(1) Node.IH(2) show ?thesis by auto
  next
    case 3
    with Node.prems(1) Node.IH(1) show ?thesis by auto
  qed
qed

lemma leaf_span:
  "spans n \<Longrightarrow> L \<in> set (leaves n) \<Longrightarrow> From (segment n) \<le> From L \<and> To L \<le> To (segment n)"
  by (cases n) simp

lemma insertInterval_covers:
  "spans n \<Longrightarrow> L \<in> set (leaves n) \<Longrightarrow> subsetOf L (Segment i) \<Longrightarrow>
   From L \<le> x \<Longrightarrow> x \<le> To L \<Longrightarrow> i \<in> found (insertInterval n i) x x"
proof (induction n rule: node_induct)
  case (Node seg l r ov)
  from Node.prems(1,2) have span: "From seg \<le> From L" "To L \<le> To seg"
    by auto
  with Node.prems(4,5) have nd: "\<not> Disjoint seg x x"
    by (auto simp: Disjoint_def)
  show ?case
  proof (cases "subsetOf seg (Segment i)")
    case True
    with nd show ?thesis by simp
  next
    case False
    with Node.prems(3) have "l \<noteq> None \<or> r \<noteq> None"
      using Node.prems(2) by (auto split: if_splits)
    with Node.prems(2) consider
        ln where "l = Some ln" "L \<in> set (leaves ln)"
      | rn where "r = Some rn" "L \<in> set (leaves rn)"
      by (auto split: option.splits if_splits)
    then show ?thesis
    proof cases
      case 1
      with Node.prems(1) have sp: "spans ln"
        by simp
      from leaf_span [OF sp 1(2)] Node.prems(3,4,5)
      have "intersectsWith (segment ln) (Segment i)"
        by (auto simp: intersectsWith_def subsetOf_def)
      moreover have "i \<in> found (insertInterval ln i) x x"
        using 1 sp Node.prems(3,4,5) by (intro Node.IH(1))
      ultimately show ?thesis
        using False nd 1 by (auto simp: Let_def split: option.splits)
    next
      case 2
      with Node.prems(1) have sp: "spans rn"
        by simp
      from leaf_span [OF sp 2(2)] Node.prems(3,4,5)
      have "intersectsWith (segment rn) (Segment i)"
        by (auto simp: intersectsWith_def subsetOf_def)
      moreover have "i \<in> found (insertInterval rn i) x x"
        using 2 sp Node.prems(3,4,5) by (intro Node.IH(2))
      ultimately show ?thesis
        using False nd 2 by (auto simp: Let_def split: option.splits)
    qed
  qed
qed

section \<open>The tree over the elementary segments\<close>

declare insertNodes.simps [simp del]

lemma ascending_append:
  "ascending (xs @ ys) \<Longrightarrow> ascending xs \<and> ascending ys"
  by (auto simp: ascending_def sorted_append)

lemma ascending_take_drop:
  assumes "ascending ls"
  shows "ascending (take c ls)" and "ascending (drop c ls)"
  using ascending_append [of "take c ls" "drop c ls"] assms by simp_all

lemma ascending_bounds:
  assumes "ascending ls" "L \<in> set ls"
  shows "From (ls ! 0) \<le> From L" and "To L \<le> To (ls ! (length ls - 1))"
proof -
  from assms(2) obtain k where k: "k < length ls" "L = ls ! k"
    by (auto simp: in_set_conv_nth)
  from assms(1) have "sorted (map From ls)" "sorted (map To ls)"
    by (simp_all add: ascending_def)
  from k have "0 < length ls"
    by auto
  with sorted_nth_mono [OF \<open>sorted (map From ls)\<close>, of 0 k] k
  show "From (ls ! 0) \<le> From L"
    by simp
  from sorted_nth_mono [OF \<open>sorted (map To ls)\<close>, of k "length ls - 1"] k
  show "To L \<le> To (ls ! (length ls - 1))"
    by simp
qed

lemma insertNodes_built:
  "ls \<noteq> [] \<Longrightarrow>
   \<exists>n. insertNodes ls = Inr n \<and> leaves n = ls \<and> entries n = {}
     \<and> segment n = \<lparr>From = From (ls ! 0), To = To (ls ! (length ls - 1))\<rparr>
     \<and> (ascending ls \<longrightarrow> spans n \<and> nested n)"
proof (induction ls rule: insertNodes.induct)
  case (1 leaves')
  show ?case
  proof (cases "length leaves' = 1")
    case True
    then obtain L where L: "leaves' = [L]"
      by (cases leaves') auto
    then show ?thesis
      by (simp add: insertNodes.simps ascending_def)
  next
    case False
    define c where "c = length leaves' div 2"
    from False 1(3) have "length leaves' \<noteq> 0" "length leaves' \<noteq> 1"
      by simp_all
    then have len: "2 \<le> length leaves'"
      by arith
    then have c: "0 < c" "c < length leaves'"
      by (simp_all add: c_def)
    then have ne: "take c leaves' \<noteq> []" "drop c leaves' \<noteq> []"
      by auto
    from 1(1) [OF False 1(3) c_def ne(1)] obtain l where l:
      "insertNodes (take c leaves') = Inr l" "leaves l = take c leaves'" "entries l = {}"
      "segment l = \<lparr>From = From (take c leaves' ! 0),
          To = To (take c leaves' ! (length (take c leaves') - 1))\<rparr>"
      "ascending (take c leaves') \<longrightarrow> spans l \<and> nested l"
      by blast
    from 1(2) [OF False 1(3) c_def l(1) ne(2)] obtain r where r:
      "insertNodes (drop c leaves') = Inr r" "leaves r = drop c leaves'" "entries r = {}"
      "segment r = \<lparr>From = From (drop c leaves' ! 0),
          To = To (drop c leaves' ! (length (drop c leaves') - 1))\<rparr>"
      "ascending (drop c leaves') \<longrightarrow> spans r \<and> nested r"
      by blast
    let ?seg = "\<lparr>From = From (leaves' ! 0), To = To (leaves' ! (length leaves' - 1))\<rparr>"
    let ?n = "Node ?seg (Some l) (Some r) []"
    have built: "insertNodes leaves' = Inr ?n"
      using False 1(3) l(1) r(1) by (subst insertNodes.simps) (simp add: c_def Let_def)
    have lv: "leaves ?n = leaves'"
      using l(2) r(2) by simp
    have segl: "segment l = \<lparr>From = From (leaves' ! 0), To = To (leaves' ! (c - 1))\<rparr>"
      using l(4) c by (simp add: min_def)
    have segr: "segment r = \<lparr>From = From (leaves' ! c), To = To (leaves' ! (length leaves' - 1))\<rparr>"
      using r(4) c by simp
    have asc: "spans ?n \<and> nested ?n" if a: "ascending leaves'"
    proof -
      from a l(5) r(5) have sub: "spans l" "nested l" "spans r" "nested r"
        by (simp_all add: ascending_take_drop)
      have b: "From (leaves' ! 0) \<le> From L \<and> To L \<le> To (leaves' ! (length leaves' - 1))"
        if "L \<in> set leaves'" for L
        using ascending_bounds [OF a that] by simp
      have in0: "leaves' ! 0 \<in> set leaves'" and inc: "leaves' ! c \<in> set leaves'"
        and inc1: "leaves' ! (c - 1) \<in> set leaves'"
      proof -
        from c len have "0 < length leaves'" "c < length leaves'" "c - 1 < length leaves'"
          by linarith+
        then show "leaves' ! 0 \<in> set leaves'" "leaves' ! c \<in> set leaves'"
          "leaves' ! (c - 1) \<in> set leaves'"
          by (simp_all only: nth_mem)
      qed
      from a in0 have wf0: "From (leaves' ! 0) \<le> To (leaves' ! 0)"
        by (simp add: ascending_def)
      have "spans ?n"
        using sub b lv by (simp del: leaves.simps)
      moreover have "nested ?n"
        using sub b [OF in0] b [OF inc] b [OF inc1] wf0 segl segr
        by (simp add: subsetOf_def)
      ultimately show ?thesis ..
    qed
    show ?thesis
      using built lv l(3) r(3) asc by (intro exI [of _ ?n]) simp
  qed
qed

lemma alternating_bounds:
  "L \<in> set (alternating eps) \<Longrightarrow> From L \<in> set eps \<and> To L \<in> set eps"
  by (induction eps rule: alternating.induct) auto

lemma alternating_Nil [simp]: "alternating eps = [] \<longleftrightarrow> eps = []"
  by (cases eps rule: alternating.cases) auto

lemma alternating_ascending: "sorted eps \<Longrightarrow> ascending (alternating eps)"
proof (induction eps rule: alternating.induct)
  case 1
  then show ?case by (simp add: ascending_def)
next
  case (2 p)
  then show ?case by (simp add: ascending_def)
next
  case (3 p q ps)
  then have ih: "ascending (alternating (q # ps))" and pq: "p \<le> q"
    and rest: "\<forall>y \<in> set (q # ps). q \<le> y"
    by auto
  have b: "q \<le> From L \<and> q \<le> To L" if "L \<in> set (alternating (q # ps))" for L
    using alternating_bounds [OF that] rest by blast
  from ih pq b show ?case
    by (fastforce simp: ascending_def)
qed

lemma alternating_leaf:
  "sorted eps \<Longrightarrow> lo \<in> set eps \<Longrightarrow> hi \<in> set eps \<Longrightarrow> lo \<le> x \<Longrightarrow> x \<le> hi \<Longrightarrow>
   \<exists>L \<in> set (alternating eps). From L \<le> x \<and> x \<le> To L \<and> lo \<le> From L \<and> To L \<le> hi"
proof (induction eps arbitrary: lo rule: alternating.induct)
  case 1
  then show ?case by simp
next
  case (2 p)
  then show ?case by simp
next
  case (3 p q ps)
  note IH = "3.IH" and prems = "3.prems"
  from prems(1) have pq: "p \<le> q" and srt: "sorted (q # ps)"
    and rest: "\<forall>y \<in> set (q # ps). q \<le> y"
    by auto
  consider "x \<le> p" | "p < x" "x \<le> q" | "q < x"
    by linarith
  then show ?case
  proof cases
    case 1
    from prems(2) pq rest have "p \<le> lo" by auto
    with 1 prems(4) have "lo = p" "x = p" by auto
    moreover from prems(3) pq rest have "p \<le> hi" by auto
    ultimately show ?thesis by auto
  next
    case 2
    from 2 prems(5) have "p < hi" by simp
    with prems(3) rest have hi: "q \<le> hi" by auto
    from prems(2) rest 2 prems(4) have "lo = p \<or> lo = q"
      by auto
    then show ?thesis
    proof
      assume "lo = p"
      with 2 hi show ?thesis by auto
    next
      assume "lo = q"
      with 2 prems(4) have "x = q" by simp
      moreover have "\<lparr>From = q, To = q\<rparr> \<in> set (alternating (q # ps))"
        by (cases ps) simp_all
      ultimately show ?thesis
        using \<open>lo = q\<close> hi by (intro bexI [of _ "\<lparr>From = q, To = q\<rparr>"]) simp_all
    qed
  next
    case 3
    from 3 prems(5) pq have "p < hi" by simp
    with prems(3) have hi: "hi \<in> set (q # ps)" by auto
    show ?thesis
    proof (cases "lo = p")
      case True
      have "q \<in> set (q # ps)" by simp
      from IH [OF srt this hi] \<open>q < x\<close> prems(5)
      obtain L where "L \<in> set (alternating (q # ps))" "From L \<le> x" "x \<le> To L"
        "q \<le> From L" "To L \<le> hi"
        by auto
      with True pq show ?thesis
        by auto
    next
      case False
      with prems(2) have "lo \<in> set (q # ps)" by auto
      from IH [OF srt this hi prems(4,5)] show ?thesis
        by auto
    qed
  qed
qed

section \<open>Endpoint extraction\<close>

lemma wrap64_succ_neq: "wrap64 (x + 1) \<noteq> x"
proof
  assume "wrap64 (x + 1) = x"
  then have "(x + 1 + 2 ^ 63) mod 2 ^ 64 = x + 2 ^ 63"
    by (simp add: wrap64_def)
  then have "(x + 2 ^ 63 + 1) mod 2 ^ 64 = (x + 2 ^ 63) mod 2 ^ 64"
    by (simp add: add.commute add.left_commute)
  then have "(2 ^ 64 :: int) dvd (x + 2 ^ 63 + 1) - (x + 2 ^ 63)"
    by (simp only: mod_eq_dvd_iff)
  then have "(2 ^ 64 :: int) dvd 1"
    by simp
  then show False
    by simp
qed

lemma Dedup_loop:
  "fst (foldl (\<lambda>(unique, prev) val.
                 if val \<noteq> prev then (unique @ [val], val) else (unique, prev))
          (acc, prev) xs) = acc @ tl (remdups_adj (prev # xs))"
proof (induction xs arbitrary: acc prev)
  case Nil
  then show ?case by simp
next
  case (Cons v vs)
  show ?case
  proof (cases "v = prev")
    case True
    then show ?thesis
      using Cons [of acc prev] by simp
  next
    case False
    have "remdups_adj (v # vs) = v # tl (remdups_adj (v # vs))"
      by simp
    with False show ?thesis
      using Cons [of "acc @ [v]" v] by simp
  qed
qed

lemma Dedup_sorted:
  "sl \<noteq> [] \<Longrightarrow> Dedup sl = Inr (remdups_adj (sort sl))"
proof -
  assume "sl \<noteq> []"
  then have ne: "sort sl \<noteq> []"
    by (metis set_sort set_empty)
  then obtain v vs where s: "sort sl = v # vs"
    by (cases "sort sl") auto
  have "wrap64 (v + 1) \<noteq> v"
    by (rule wrap64_succ_neq)
  then show ?thesis
    using ne s by (simp add: Dedup_def Let_def Dedup_loop)
qed

lemma fill_endpoints_length:
  "length (foldl (\<lambda>endpoints (i, interval).
                    (endpoints[i := f interval])[i + n := g interval]) eps ixs) = length eps"
  by (induction ixs arbitrary: eps) (auto split: prod.splits)

lemma fill_endpoints_nth:
  "k + length xs \<le> n \<Longrightarrow> length eps = n * 2 \<Longrightarrow> j < n * 2 \<Longrightarrow>
   foldl (\<lambda>endpoints (i, interval).
            (endpoints[i := f interval])[i + n := g interval]) eps (enumerate k xs) ! j =
     (if k \<le> j \<and> j < k + length xs then f (xs ! (j - k))
      else if n + k \<le> j \<and> j < n + k + length xs then g (xs ! (j - n - k))
      else eps ! j)"
proof (induction xs arbitrary: k eps)
  case Nil
  then show ?case by auto
next
  case (Cons x xs)
  let ?eps = "(eps[k := f x])[k + n := g x]"
  have len: "length ?eps = n * 2"
    using Cons.prems by simp
  have step: "Suc k + length xs \<le> n"
    using Cons.prems by simp
  have kn: "k < n"
    using Cons.prems by simp
  note ih = Cons.IH [OF step len Cons.prems(3)]
  have eps_j: "?eps ! j = (if j = k + n then g x else if j = k then f x else eps ! j)"
    using Cons.prems kn by (simp add: nth_list_update)
  have "foldl (\<lambda>endpoints (i, interval).
            (endpoints[i := f interval])[i + n := g interval]) eps (enumerate k (x # xs)) ! j =
     foldl (\<lambda>endpoints (i, interval).
            (endpoints[i := f interval])[i + n := g interval]) ?eps (enumerate (Suc k) xs) ! j"
    by simp
  also have "\<dots> =
     (if Suc k \<le> j \<and> j < Suc k + length xs then f (xs ! (j - Suc k))
      else if n + Suc k \<le> j \<and> j < n + Suc k + length xs then g (xs ! (j - n - Suc k))
      else ?eps ! j)"
    by (rule ih)
  also have "\<dots> =
     (if Suc k \<le> j \<and> j < Suc k + length xs then f (xs ! (j - Suc k))
      else if n + Suc k \<le> j \<and> j < n + Suc k + length xs then g (xs ! (j - n - Suc k))
      else if j = k + n then g x else if j = k then f x else eps ! j)"
    by (simp only: eps_j)
  also have "\<dots> =
     (if k \<le> j \<and> j < k + length (x # xs) then f ((x # xs) ! (j - k))
      else if n + k \<le> j \<and> j < n + k + length (x # xs) then g ((x # xs) ! (j - n - k))
      else eps ! j)"
  proof -
    have a: "j - k = Suc (j - Suc k)" if "Suc k \<le> j"
      using that by simp
    have b: "j - n - k = Suc (j - n - Suc k)" if "n + Suc k \<le> j"
      using that by simp
    consider "j < k" | "j = k" | "Suc k \<le> j" "j < n + k" | "j = n + k" | "n + Suc k \<le> j"
      by linarith
    then show ?thesis
    proof cases
      case 1
      with kn show ?thesis by simp
    next
      case 2
      with kn show ?thesis by simp
    next
      case 3
      with kn a show ?thesis by simp
    next
      case 4
      with kn step show ?thesis by simp
    next
      case 5
      with kn step b show ?thesis by simp
    qed
  qed
  finally show ?case .
qed

lemma fill_endpoints:
  "foldl (\<lambda>endpoints (i, interval).
            (endpoints[i := f interval])[i + length xs := g interval])
     (replicate (length xs * 2) d) (enumerate 0 xs) = map f xs @ map g xs"
proof (rule nth_equalityI)
  show "length (foldl (\<lambda>endpoints (i, interval).
            (endpoints[i := f interval])[i + length xs := g interval])
     (replicate (length xs * 2) d) (enumerate 0 xs)) = length (map f xs @ map g xs)"
    by (simp add: fill_endpoints_length)
next
  fix j
  assume "j < length (foldl (\<lambda>endpoints (i, interval).
            (endpoints[i := f interval])[i + length xs := g interval])
     (replicate (length xs * 2) d) (enumerate 0 xs))"
  then have j: "j < length xs * 2"
    by (simp add: fill_endpoints_length)
  have "foldl (\<lambda>endpoints (i, interval).
            (endpoints[i := f interval])[i + length xs := g interval])
     (replicate (length xs * 2) d) (enumerate 0 xs) ! j =
     (if 0 \<le> j \<and> j < 0 + length xs then f (xs ! (j - 0))
      else if length xs + 0 \<le> j \<and> j < length xs + 0 + length xs
        then g (xs ! (j - length xs - 0))
      else replicate (length xs * 2) d ! j)"
    using j by (intro fill_endpoints_nth) simp_all
  also have "\<dots> = (map f xs @ map g xs) ! j"
    using j by (auto simp: nth_append)
  finally show "foldl (\<lambda>endpoints (i, interval).
            (endpoints[i := f interval])[i + length xs := g interval])
     (replicate (length xs * 2) d) (enumerate 0 xs) ! j = (map f xs @ map g xs) ! j" .
qed

lemma remdups_adj_sorted_distinct: "sorted xs \<Longrightarrow> distinct (remdups_adj xs)"
proof (induction xs rule: remdups_adj.induct)
  case 1
  then show ?case by simp
next
  case (2 x)
  then show ?case by simp
next
  case (3 x y xs)
  show ?case
  proof (cases "x = y")
    case True
    with 3 show ?thesis by simp
  next
    case False
    with "3.prems" have "x < y" "\<forall>z \<in> set xs. y \<le> z"
      by auto
    then have "x \<notin> set (y # xs)"
      by auto
    with False 3 show ?thesis by simp
  qed
qed

lemma Endpoints_result:
  assumes "base' \<noteq> []"
  shows "\<exists>eps. Endpoints base' = Inr (eps, eps ! 0, eps ! (length eps - 1))
    \<and> eps \<noteq> [] \<and> sorted eps \<and> distinct eps
    \<and> set eps = (From \<circ> Segment) ` set base' \<union> (To \<circ> Segment) ` set base'"
proof -
  let ?all = "map (\<lambda>i. From (Segment i)) base' @ map (\<lambda>i. To (Segment i)) base'"
  let ?eps = "remdups_adj (sort ?all)"
  from assms have ne: "?all \<noteq> []"
    by simp
  have d: "Dedup ?all = Inr ?eps"
    by (rule Dedup_sorted [OF ne])
  from ne have ne': "?eps \<noteq> []"
    by (metis remdups_adj_Nil_iff set_empty set_sort)
  have srt: "sorted ?eps"
    by simp
  have "distinct ?eps"
    by (simp add: remdups_adj_sorted_distinct)
  moreover have "set ?eps = (From \<circ> Segment) ` set base' \<union> (To \<circ> Segment) ` set base'"
    by (auto simp: image_iff)
  moreover have "Endpoints base' = Inr (?eps, ?eps ! 0, ?eps ! (length ?eps - 1))"
    using ne' d by (simp add: Endpoints_def Let_def fill_endpoints)
  ultimately show ?thesis
    using ne' srt by blast
qed

section \<open>The sequential tree answers like the oracle\<close>

lemma entries_empty_canonical: "entries n = {} \<Longrightarrow> canonical anc n"
proof (induction n arbitrary: anc rule: node_induct)
  case (Node seg l r ov)
  then show ?case
    by (auto split: option.splits)
qed

lemma foldl_insertInterval_shape [simp]:
  "leaves (foldl insertInterval n is) = leaves n"
  "spans (foldl insertInterval n is) = spans n"
  "nested (foldl insertInterval n is) = nested n"
  "segment (foldl insertInterval n is) = segment n"
  by (induction "is" arbitrary: n) simp_all

lemma foldl_insertInterval_canonical:
  "canonical [] n \<Longrightarrow> canonical [] (foldl insertInterval n is)"
  by (induction "is" arbitrary: n) (simp_all add: insertInterval_canonical)

lemma foldl_insertInterval_entries:
  "entries (foldl insertInterval n is) \<subseteq> entries n \<union> set is"
proof (induction "is" arbitrary: n)
  case Nil
  then show ?case by simp
next
  case (Cons i "is")
  from Cons [of "insertInterval n i"] insertInterval_entries [of n i]
  show ?case by auto
qed

lemma foldl_insertInterval_found_grows:
  "found n from to \<subseteq> found (foldl insertInterval n is) from to"
proof (induction "is" arbitrary: n)
  case Nil
  then show ?case by simp
next
  case (Cons i "is")
  from Cons [of "insertInterval n i"] insertInterval_found_grows [of n "from" to i]
  show ?case by auto
qed

lemma foldl_insertInterval_covers:
  "i \<in> set is \<Longrightarrow> spans n \<Longrightarrow> L \<in> set (leaves n) \<Longrightarrow> subsetOf L (Segment i) \<Longrightarrow>
   From L \<le> x \<Longrightarrow> x \<le> To L \<Longrightarrow> i \<in> found (foldl insertInterval n is) x x"
proof (induction "is" arbitrary: n)
  case Nil
  then show ?case by simp
next
  case (Cons j "is")
  show ?case
  proof (cases "i = j")
    case True
    have "i \<in> found (insertInterval n i) x x"
      using Cons.prems by (intro insertInterval_covers)
    with foldl_insertInterval_found_grows [of "insertInterval n i" x x "is"] True
    show ?thesis by auto
  next
    case False
    with Cons.prems have "i \<in> set is" by simp
    then have "i \<in> found (foldl insertInterval (insertInterval n j) is) x x"
      using Cons.prems by (intro Cons.IH) simp_all
    then show ?thesis by simp
  qed
qed

lemma BuildTree_structure:
  assumes "base t \<noteq> []"
  shows "\<exists>eps n. sorted eps \<and> distinct eps \<and> eps \<noteq> []
    \<and> set eps = (From \<circ> Segment) ` set (base t) \<union> (To \<circ> Segment) ` set (base t)
    \<and> Endpoints (base t) = Inr (eps, eps ! 0, eps ! (length eps - 1))
    \<and> insertNodes (alternating eps) = Inr n \<and> leaves n = alternating eps
    \<and> entries n = {} \<and> spans n \<and> nested n
    \<and> BuildTree t = Inr (t\<lparr>min' := eps ! 0, max' := eps ! (length eps - 1),
                             root := Some (foldl insertInterval n (base t))\<rparr>)"
proof -
  from Endpoints_result [OF assms] obtain eps where eps:
    "Endpoints (base t) = Inr (eps, eps ! 0, eps ! (length eps - 1))"
    "eps \<noteq> []" "sorted eps" "distinct eps"
    "set eps = (From \<circ> Segment) ` set (base t) \<union> (To \<circ> Segment) ` set (base t)"
    by blast
  have el: "elementaryIntervals eps = Inr (alternating eps)"
    by (rule elementaryIntervals_alternating [OF eps(2)])
  from eps(2) have "alternating eps \<noteq> []"
    by simp
  from insertNodes_built [OF this] alternating_ascending [OF eps(3)]
  obtain n where n: "insertNodes (alternating eps) = Inr n" "leaves n = alternating eps"
    "entries n = {}" "spans n" "nested n"
    by blast
  have "BuildTree t = Inr (t\<lparr>min' := eps ! 0, max' := eps ! (length eps - 1),
                             root := Some (foldl insertInterval n (base t))\<rparr>)"
    using assms eps(1) el n(1) by (simp add: BuildTree_def)
  with eps n show ?thesis
    by blast
qed

theorem stree_Query_oracle:
  assumes "base t \<noteq> []"
    and "\<forall>i \<in> set (base t). From (Segment i) \<le> To (Segment i)"
    and "from \<le> to"
  shows "\<exists>t' result. BuildTree t = Inr t' \<and> Query t' from to = Inr (result, t')
    \<and> ids result = Id' ` set (serial_Query t from to)"
proof -
  from BuildTree_structure [OF assms(1)] obtain eps n where s:
    "sorted eps"
    "set eps = (From \<circ> Segment) ` set (base t) \<union> (To \<circ> Segment) ` set (base t)"
    "leaves n = alternating eps" "entries n = {}" "spans n"
    "BuildTree t = Inr (t\<lparr>min' := eps ! 0, max' := eps ! (length eps - 1),
                           root := Some (foldl insertInterval n (base t))\<rparr>)"
    by blast
  let ?root = "foldl insertInterval n (base t)"
  let ?t' = "t\<lparr>min' := eps ! 0, max' := eps ! (length eps - 1), root := Some ?root\<rparr>"
  let ?result = "querySingle ?root from to Map.empty"
  have q: "Query ?t' from to = Inr (?result, ?t')"
    by (simp add: Query_def)
  have "keyed ?result"
    by (simp add: querySingle_keyed)
  then have "ids ?result = dom ?result"
    by (rule keyed_ids)
  also have "\<dots> = Id' ` found ?root from to"
    by (simp add: querySingle_dom)
  finally have ids: "ids ?result = Id' ` found ?root from to" .
  have canon: "canonical [] ?root"
    using s(4) by (intro foldl_insertInterval_canonical entries_empty_canonical)
  have "found ?root from to = {i \<in> set (base t). \<not> Disjoint (Segment i) from to}"
  proof (intro equalityI subsetI)
    fix i assume i: "i \<in> found ?root from to"
    with found_entries [of ?root "from" to] foldl_insertInterval_entries [of n "base t"] s(4)
    have "i \<in> set (base t)"
      by auto
    moreover from canonical_found_sound [OF canon i] have "\<not> Disjoint (Segment i) from to" .
    ultimately show "i \<in> {i \<in> set (base t). \<not> Disjoint (Segment i) from to}"
      by simp
  next
    fix i assume "i \<in> {i \<in> set (base t). \<not> Disjoint (Segment i) from to}"
    then have i: "i \<in> set (base t)" and nd: "\<not> Disjoint (Segment i) from to"
      by simp_all
    from assms(2) i have wf: "From (Segment i) \<le> To (Segment i)"
      by simp
    define x where "x = max from (From (Segment i))"
    from nd wf assms(3) have x: "from \<le> x" "x \<le> to" "From (Segment i) \<le> x" "x \<le> To (Segment i)"
      by (auto simp: x_def Disjoint_def split: if_splits)
    from i s(2) have "From (Segment i) \<in> set eps" "To (Segment i) \<in> set eps"
      by auto
    from alternating_leaf [OF s(1) this x(3,4)] obtain L where L:
      "L \<in> set (alternating eps)" "From L \<le> x" "x \<le> To L"
      "From (Segment i) \<le> From L" "To L \<le> To (Segment i)"
      by blast
    from L(4,5) have sub: "subsetOf L (Segment i)"
      by (simp add: subsetOf_def)
    from L(1) s(3) have "L \<in> set (leaves n)"
      by simp
    from foldl_insertInterval_covers [OF i s(5) this sub L(2,3)]
    have "i \<in> found ?root x x" .
    with found_mono [OF x(1,2), of ?root] show "i \<in> found ?root from to"
      by auto
  qed
  with ids have "ids ?result = Id' ` set (serial_Query t from to)"
    by (simp add: serial_Query_filter)
  with s(6) q show ?thesis
    by blast
qed

section \<open>The tree of the parallel builder\<close>

declare mtree_insertNodes.simps [simp del]

lemma sorted_first_last:
  assumes "sorted (e :: int list)" "i \<le> j" "j < length e"
  shows "e ! i \<le> e ! j"
  using assms by (simp add: sorted_nth_mono)

lemma mtree_insertNodes_built:
  "e \<noteq> [] \<Longrightarrow> sorted e \<Longrightarrow>
   \<exists>n. mtree_insertNodes t e level = Inr n \<and> entries n = {}
     \<and> segment n = \<lparr>From = e ! 0, To = e ! (length e - 1)\<rparr> \<and> nested n"
proof (induction t e level rule: mtree_insertNodes.induct)
  case (1 t endpoint level)
  note srt = \<open>sorted endpoint\<close>
  from \<open>endpoint \<noteq> []\<close> have "length endpoint \<noteq> 0"
    by simp
  then consider "length endpoint = 1" | "length endpoint = 2" | "3 \<le> length endpoint"
    by linarith
  then show ?case
  proof cases
    case 1
    then show ?thesis
      by (subst mtree_insertNodes.simps) simp
  next
    case 2
    with sorted_first_last [OF srt, of 0 1] have "endpoint ! 0 \<le> endpoint ! 1"
      by simp
    with 2 show ?thesis
      by (subst mtree_insertNodes.simps) (simp add: subsetOf_def)
  next
    case 3
    define c where "c = length endpoint div 2"
    from 3 have n1: "length endpoint \<noteq> 1" and n2: "length endpoint \<noteq> 2"
      and ne: "endpoint \<noteq> []"
      by auto
    from 3 have c: "c + 1 < length endpoint" "0 < c"
      by (simp_all add: c_def)
    then have tne: "take (c + 1) endpoint \<noteq> []" and dne: "drop (c + 1) endpoint \<noteq> []"
      by auto
    have st: "sorted (take (c + 1) endpoint)" and sd: "sorted (drop (c + 1) endpoint)"
      using srt by (simp_all add: sorted_wrt_take sorted_wrt_drop)
    let ?seg = "\<lparr>From = endpoint ! 0, To = endpoint ! (length endpoint - 1)\<rparr>"
    have ends: "take (c + 1) endpoint ! 0 = endpoint ! 0"
      "take (c + 1) endpoint ! (length (take (c + 1) endpoint) - 1) = endpoint ! c"
      "drop (c + 1) endpoint ! 0 = endpoint ! (c + 1)"
      "drop (c + 1) endpoint ! (length (drop (c + 1) endpoint) - 1) =
         endpoint ! (length endpoint - 1)"
    proof -
      from c have "length (take (c + 1) endpoint) - 1 = c"
        by simp
      then show "take (c + 1) endpoint ! (length (take (c + 1) endpoint) - 1) = endpoint ! c"
        by simp
      from c have "c + 1 + (length (drop (c + 1) endpoint) - 1) = length endpoint - 1"
        by simp
      with c show "drop (c + 1) endpoint ! (length (drop (c + 1) endpoint) - 1) =
          endpoint ! (length endpoint - 1)"
        by (simp only: nth_drop less_imp_le_nat)
    qed (use c in simp_all)
    have sub: "\<exists>l r. mtree_insertNodes t (take (c + 1) endpoint) (level + 1) = Inr l
        \<and> mtree_insertNodes t (drop (c + 1) endpoint) (level + 1) = Inr r
        \<and> entries l = {} \<and> entries r = {} \<and> nested l \<and> nested r
        \<and> segment l = \<lparr>From = endpoint ! 0, To = endpoint ! c\<rparr>
        \<and> segment r = \<lparr>From = endpoint ! (c + 1), To = endpoint ! (length endpoint - 1)\<rparr>"
    proof (cases "level + 1 = P_LEVEL \<and> \<not> single t")
      case True
      from "1.IH"(1) [OF n1 n2 ne refl c_def refl True tne st] obtain l where l:
        "mtree_insertNodes t (take (c + 1) endpoint) (level + 1) = Inr l" "entries l = {}"
        "segment l = \<lparr>From = take (c + 1) endpoint ! 0,
           To = take (c + 1) endpoint ! (length (take (c + 1) endpoint) - 1)\<rparr>" "nested l"
        by blast
      from "1.IH"(2) [OF n1 n2 ne refl c_def refl True l(1) dne sd] obtain r where r:
        "mtree_insertNodes t (drop (c + 1) endpoint) (level + 1) = Inr r" "entries r = {}"
        "segment r = \<lparr>From = drop (c + 1) endpoint ! 0,
           To = drop (c + 1) endpoint ! (length (drop (c + 1) endpoint) - 1)\<rparr>" "nested r"
        by blast
      from l r show ?thesis
        unfolding ends by blast
    next
      case False
      from "1.IH"(3) [OF n1 n2 ne refl c_def refl False tne st] obtain l where l:
        "mtree_insertNodes t (take (c + 1) endpoint) (level + 1) = Inr l" "entries l = {}"
        "segment l = \<lparr>From = take (c + 1) endpoint ! 0,
           To = take (c + 1) endpoint ! (length (take (c + 1) endpoint) - 1)\<rparr>" "nested l"
        by blast
      from "1.IH"(4) [OF n1 n2 ne refl c_def refl False l(1) dne sd] obtain r where r:
        "mtree_insertNodes t (drop (c + 1) endpoint) (level + 1) = Inr r" "entries r = {}"
        "segment r = \<lparr>From = drop (c + 1) endpoint ! 0,
           To = drop (c + 1) endpoint ! (length (drop (c + 1) endpoint) - 1)\<rparr>" "nested r"
        by blast
      from l r show ?thesis
        unfolding ends by blast
    qed
    then obtain l r where lr:
      "mtree_insertNodes t (take (c + 1) endpoint) (level + 1) = Inr l"
      "mtree_insertNodes t (drop (c + 1) endpoint) (level + 1) = Inr r"
      "entries l = {}" "entries r = {}" "nested l" "nested r"
      "segment l = \<lparr>From = endpoint ! 0, To = endpoint ! c\<rparr>"
      "segment r = \<lparr>From = endpoint ! (c + 1), To = endpoint ! (length endpoint - 1)\<rparr>"
      by blast
    have built: "mtree_insertNodes t endpoint level = Inr (Node ?seg (Some l) (Some r) [])"
      using n1 n2 ne lr(1,2) by (subst mtree_insertNodes.simps) (simp add: c_def Let_def)
    have ord: "endpoint ! 0 \<le> endpoint ! c" "endpoint ! c \<le> endpoint ! (length endpoint - 1)"
      "endpoint ! 0 \<le> endpoint ! (c + 1)"
      "endpoint ! (c + 1) \<le> endpoint ! (length endpoint - 1)"
      using c by (auto intro!: sorted_first_last [OF srt])
    have "nested (Node ?seg (Some l) (Some r) [])"
      using lr ord by (simp add: subsetOf_def)
    with built lr(3,4) show ?thesis
      by simp
  qed
qed

section \<open>The two formulations of insertion\<close>

lemma mtree_insertInterval_CompareTo:
  "mtree_insertInterval n i = insertInterval_CompareTo n i"
proof (induction n rule: node_induct)
  case (Node seg l r ov)
  then show ?case
    by (auto simp: Let_def split: option.splits relation.splits)
qed

lemma CompareTo_cases:
  "CompareTo s other = DISJOINT \<longleftrightarrow> From other > To s \<or> To other < From s"
  "CompareTo s other = SUBSET \<longleftrightarrow>
     \<not> (From other > To s \<or> To other < From s) \<and> subsetOf s other"
  "CompareTo s other = INTERSECT_OR_SUPERSET \<longleftrightarrow>
     \<not> (From other > To s \<or> To other < From s) \<and> \<not> subsetOf s other"
  by (auto simp: CompareTo_def subsetOf_def)

lemma insertInterval_CompareTo_disjoint:
  "\<not> intersectsWith (segment n) (Segment i) \<Longrightarrow> insertInterval_CompareTo n i = n"
  by (cases n) (auto simp: CompareTo_def intersectsWith_def)

lemma insertInterval_agree:
  "nested n \<Longrightarrow> insertInterval_CompareTo n i = insertInterval n i"
proof (induction n rule: node_induct)
  case (Node seg l r ov)
  from Node.prems have wf: "From seg \<le> To seg"
    by simp
  have l: "insertInterval_CompareTo ln i =
      (if intersectsWith (segment ln) (Segment i) then insertInterval ln i else ln)"
    if "l = Some ln" for ln
  proof (cases "intersectsWith (segment ln) (Segment i)")
    case True
    with that Node.prems Node.IH(1) [of ln] show ?thesis by simp
  next
    case False
    then show ?thesis by (simp add: insertInterval_CompareTo_disjoint)
  qed
  have r: "insertInterval_CompareTo rn i =
      (if intersectsWith (segment rn) (Segment i) then insertInterval rn i else rn)"
    if "r = Some rn" for rn
  proof (cases "intersectsWith (segment rn) (Segment i)")
    case True
    with that Node.prems Node.IH(2) [of rn] show ?thesis by simp
  next
    case False
    then show ?thesis by (simp add: insertInterval_CompareTo_disjoint)
  qed
  have sub: "\<not> intersectsWith (segment c) (Segment i)"
    if "subsetOf (segment c) seg" "CompareTo seg (Segment i) = DISJOINT" for c
    using that by (auto simp: CompareTo_cases intersectsWith_def subsetOf_def)
  show ?case
  proof (cases "CompareTo seg (Segment i)")
    case SUBSET
    then have "subsetOf seg (Segment i)"
      by (simp add: CompareTo_cases)
    with SUBSET show ?thesis
      by simp
  next
    case DISJOINT
    with wf have ns: "\<not> subsetOf seg (Segment i)"
      by (auto simp: CompareTo_cases subsetOf_def)
    from DISJOINT Node.prems sub have "\<not> intersectsWith (segment ln) (Segment i)"
      if "l = Some ln" for ln
      using that by simp
    moreover from DISJOINT Node.prems sub have "\<not> intersectsWith (segment rn) (Segment i)"
      if "r = Some rn" for rn
      using that by simp
    ultimately show ?thesis
      using DISJOINT ns by (auto simp: Let_def split: option.splits)
  next
    case INTERSECT_OR_SUPERSET
    then have ns: "\<not> subsetOf seg (Segment i)"
      by (simp add: CompareTo_cases)
    show ?thesis
      using INTERSECT_OR_SUPERSET ns l r by (auto simp: Let_def split: option.splits)
  qed
qed

lemma foldl_insertInterval_agree:
  "nested n \<Longrightarrow> foldl insertInterval_CompareTo n is = foldl insertInterval n is"
  by (induction "is" arbitrary: n) (simp_all add: insertInterval_agree)

lemma foldl_mtree_insertInterval:
  "nested n \<Longrightarrow> foldl mtree_insertInterval n is = foldl insertInterval n is"
proof -
  have "mtree_insertInterval = insertInterval_CompareTo"
    by (intro ext) (rule mtree_insertInterval_CompareTo)
  then show "nested n \<Longrightarrow> foldl mtree_insertInterval n is = foldl insertInterval n is"
    by (simp add: foldl_insertInterval_agree)
qed

section \<open>Parallel insertion under any schedule\<close>

text \<open>
  The appends of one goroutine, made without interruption, are the insertion as the
  source writes it; and whatever the schedule, every state of the parallel insertion is
  \<open>scheduled\<close>, so that the tree it ends with is nested and canonical.
\<close>

lemma append_at_segment [simp]: "segment (append_at n p i) = segment n"
  by (cases n; cases p) simp_all

lemma append_at_nested [simp]: "nested (append_at n p i) = nested n"
proof (induction n arbitrary: p rule: node_induct)
  case (Node seg l r ov)
  then show ?case
    by (cases p) (auto split: option.splits)
qed

lemma targets_append_at [simp]: "targets (append_at n p i) j = targets n j"
proof (induction n arbitrary: p rule: node_induct)
  case (Node seg l r ov)
  then show ?case
    by (cases p) (auto split: option.splits relation.splits)
qed

lemma append_at_entries: "entries (append_at n p i) \<subseteq> insert i (entries n)"
proof (induction n arbitrary: p rule: node_induct)
  case (Node seg l r ov)
  show ?case
  proof (cases p)
    case Nil
    then show ?thesis by auto
  next
    case (Cons d q)
    with Node.IH(1) [of _ q] Node.IH(2) [of _ q] show ?thesis
      by (auto split: option.splits)
  qed
qed

lemma append_at_canonical:
  "canonical anc n \<Longrightarrow> \<forall>a \<in> set anc. \<not> subsetOf a (Segment i) \<Longrightarrow>
   p \<in> set (targets n i) \<Longrightarrow> canonical anc (append_at n p i)"
proof (induction n arbitrary: anc p rule: node_induct)
  case (Node seg l r ov)
  show ?case
  proof (cases "CompareTo seg (Segment i)")
    case SUBSET
    with Node.prems(3) have p: "p = []"
      by simp
    from SUBSET have "subsetOf seg (Segment i)"
      by (simp add: CompareTo_cases)
    with Node.prems(1,2) p show ?thesis
      by simp
  next
    case DISJOINT
    with Node.prems(3) show ?thesis
      by simp
  next
    case INTERSECT_OR_SUPERSET
    then have "\<not> subsetOf seg (Segment i)"
      by (simp add: CompareTo_cases)
    with Node.prems(2) have anc: "\<forall>a \<in> set (seg # anc). \<not> subsetOf a (Segment i)"
      by simp
    from INTERSECT_OR_SUPERSET Node.prems(3) consider
        ln q where "l = Some ln" "p = False # q" "q \<in> set (targets ln i)"
      | rn q where "r = Some rn" "p = True # q" "q \<in> set (targets rn i)"
      by (auto split: option.splits)
    then show ?thesis
    proof cases
      case 1
      with Node.prems(1) have "canonical (seg # anc) (append_at ln q i)"
        by (intro Node.IH(1) anc) auto
      with 1 Node.prems(1) show ?thesis
        by simp
    next
      case 2
      with Node.prems(1) have "canonical (seg # anc) (append_at rn q i)"
        by (intro Node.IH(2) anc) auto
      with 2 Node.prems(1) show ?thesis
        by simp
    qed
  qed
qed

lemma foldl_append_at_left:
  "foldl (\<lambda>n p. append_at n p i) (Node seg (Some ln) r ov) (map ((#) False) ps) =
   Node seg (Some (foldl (\<lambda>n p. append_at n p i) ln ps)) r ov"
  by (induction ps arbitrary: ln) simp_all

lemma foldl_append_at_right:
  "foldl (\<lambda>n p. append_at n p i) (Node seg l (Some rn) ov) (map ((#) True) ps) =
   Node seg l (Some (foldl (\<lambda>n p. append_at n p i) rn ps)) ov"
  by (induction ps arbitrary: rn) simp_all

lemma mtree_insertInterval_steps:
  "foldl (\<lambda>n p. append_at n p i) n (targets n i) = mtree_insertInterval n i"
proof (induction n rule: node_induct)
  case (Node seg l r ov)
  show ?case
  proof (cases "CompareTo seg (Segment i)")
    case INTERSECT_OR_SUPERSET
    then show ?thesis
      using Node.IH
      by (cases l; cases r)
        (simp_all add: foldl_append_at_left foldl_append_at_right Let_def)
  qed simp_all
qed


lemma run_task_built:
  assumes "nested n" "canonical [] n" "entries n \<subseteq> S" "fst task \<in> S"
    "set (snd task) \<subseteq> set (targets n (fst task))"
  shows "nested (run_task n task) \<and> canonical [] (run_task n task)
    \<and> entries (run_task n task) \<subseteq> S \<and> targets (run_task n task) = targets n"
proof -
  obtain i ps where task: "task = (i, ps)"
    by (cases task)
  have "nested (foldl (\<lambda>n p. append_at n p i) n ps)
      \<and> canonical [] (foldl (\<lambda>n p. append_at n p i) n ps)
      \<and> entries (foldl (\<lambda>n p. append_at n p i) n ps) \<subseteq> S
      \<and> targets (foldl (\<lambda>n p. append_at n p i) n ps) = targets n"
    if "nested n" "canonical [] n" "entries n \<subseteq> S" "i \<in> S" "set ps \<subseteq> set (targets n i)"
    using that
  proof (induction ps arbitrary: n)
    case Nil
    then show ?case by simp
  next
    case (Cons p ps)
    let ?n = "append_at n p i"
    from Cons.prems have "canonical [] ?n"
      by (intro append_at_canonical) simp_all
    moreover from Cons.prems append_at_entries [of n p i] have "entries ?n \<subseteq> S"
      by auto
    moreover have same: "targets ?n = targets n"
      by (intro ext) simp
    ultimately have "nested (foldl (\<lambda>n p. append_at n p i) ?n ps)
      \<and> canonical [] (foldl (\<lambda>n p. append_at n p i) ?n ps)
      \<and> entries (foldl (\<lambda>n p. append_at n p i) ?n ps) \<subseteq> S
      \<and> targets (foldl (\<lambda>n p. append_at n p i) ?n ps) = targets ?n"
      using Cons.prems by (intro Cons.IH) simp_all
    with same show ?case
      by simp
  qed
  with assms task show ?thesis
    by (simp add: run_task_def)
qed

lemma foldl_run_task_built:
  assumes "nested n" "canonical [] n" "entries n \<subseteq> S"
    "\<forall>task \<in> set running. fst task \<in> S \<and> set (snd task) \<subseteq> set (targets n (fst task))"
  shows "nested (foldl run_task n running) \<and> canonical [] (foldl run_task n running)
    \<and> entries (foldl run_task n running) \<subseteq> S"
  using assms
proof (induction running arbitrary: n)
  case Nil
  then show ?case by simp
next
  case (Cons task running)
  from Cons.prems have "nested (run_task n task) \<and> canonical [] (run_task n task)
    \<and> entries (run_task n task) \<subseteq> S \<and> targets (run_task n task) = targets n"
    by (intro run_task_built) simp_all
  with Cons.prems(4) show ?case
    by (simp add: Cons.IH)
qed

lemma foldl_mtree_insertInterval_built:
  assumes "nested n" "canonical [] n" "entries n \<subseteq> S" "set is \<subseteq> S"
  shows "nested (foldl mtree_insertInterval n is)
    \<and> canonical [] (foldl mtree_insertInterval n is)
    \<and> entries (foldl mtree_insertInterval n is) \<subseteq> S"
proof -
  from assms(1) have "foldl mtree_insertInterval n is = foldl insertInterval n is"
    by (rule foldl_mtree_insertInterval)
  with assms foldl_insertInterval_entries [of n "is"] show ?thesis
    by (auto simp: foldl_insertInterval_canonical)
qed

lemma drain_built:
  assumes "scheduled base' st"
  shows "nested (drain st) \<and> canonical [] (drain st) \<and> entries (drain st) \<subseteq> set base'"
proof -
  obtain n running waiting where st: "st = (n, running, waiting)"
    by (cases st)
  with assms have run: "nested (foldl run_task n running)
      \<and> canonical [] (foldl run_task n running)
      \<and> entries (foldl run_task n running) \<subseteq> set base'"
    by (intro foldl_run_task_built) (simp_all add: scheduled_def)
  from assms st have "set waiting \<subseteq> set base'"
    by (simp add: scheduled_def)
  with run have "nested (foldl mtree_insertInterval (foldl run_task n running) waiting)
      \<and> canonical [] (foldl mtree_insertInterval (foldl run_task n running) waiting)
      \<and> entries (foldl mtree_insertInterval (foldl run_task n running) waiting)
          \<subseteq> set base'"
    by (intro foldl_mtree_insertInterval_built) simp_all
  then show ?thesis
    unfolding st drain_def by simp
qed

lemma task_step_scheduled:
  assumes "scheduled base' st"
  shows "scheduled base' (task_step room st turn)"
proof -
  obtain n running waiting where st: "st = (n, running, waiting)"
    by (cases st)
  from assms st have inv: "nested n" "canonical [] n" "entries n \<subseteq> set base'"
    "\<forall>task \<in> set running.
       fst task \<in> set base' \<and> set (snd task) \<subseteq> set (targets n (fst task))"
    "set waiting \<subseteq> set base'"
    by (simp_all add: scheduled_def)
  show ?thesis
  proof (cases turn)
    case Start
    with st inv show ?thesis
      by (cases waiting) (auto simp: scheduled_def)
  next
    case (Advance j)
    show ?thesis
    proof (cases "j < length running")
      case False
      with Advance st assms show ?thesis
        by simp
    next
      case True
      obtain i ps where task: "running ! j = (i, ps)"
        by (cases "running ! j")
      from True have mem: "running ! j \<in> set running"
        by simp
      with inv(4) have "fst (running ! j) \<in> set base'
          \<and> set (snd (running ! j)) \<subseteq> set (targets n (fst (running ! j)))"
        by blast
      with task have i: "i \<in> set base'" and ps: "set ps \<subseteq> set (targets n i)"
        by simp_all
      show ?thesis
      proof (cases ps)
        case Nil
        have "set (take j running @ drop (Suc j) running) \<subseteq> set running"
          using set_take_subset [of j running] set_drop_subset [of "Suc j" running] by auto
        with inv have "scheduled base' (n, take j running @ drop (Suc j) running, waiting)"
          unfolding scheduled_def by auto
        with Advance st True task Nil show ?thesis
          by simp
      next
        case (Cons p ps')
        let ?n = "append_at n p i"
        from ps Cons have p: "p \<in> set (targets n i)" and ps': "set ps' \<subseteq> set (targets n i)"
          by auto
        from inv(2) p have c: "canonical [] ?n"
          by (intro append_at_canonical) simp_all
        from inv(3) i append_at_entries [of n p i] have e: "entries ?n \<subseteq> set base'"
          by auto
        have r: "fst task \<in> set base' \<and> set (snd task) \<subseteq> set (targets ?n (fst task))"
          if "task \<in> set (running[j := (i, ps')])" for task
        proof -
          from that set_update_subset_insert [of running j "(i, ps')"]
          consider "task = (i, ps')" | "task \<in> set running"
            by blast
          then show ?thesis
          proof cases
            case 1
            with i ps' show ?thesis by simp
          next
            case 2
            with inv(4) show ?thesis by simp
          qed
        qed
        from inv(1,5) c e r have "scheduled base' (?n, running[j := (i, ps')], waiting)"
          unfolding scheduled_def by simp
        with Advance st True task Cons show ?thesis
          by simp
      qed
    qed
  qed
qed

lemma foldl_task_step_scheduled:
  "scheduled base' st \<Longrightarrow> scheduled base' (foldl (task_step room) st sch)"
  by (induction sch arbitrary: st) (simp_all add: task_step_scheduled)

lemma insertIntervalM_built:
  assumes "insertIntervalM sch t n = Inr (n', t')" "nested n" "entries n = {}"
  shows "nested n' \<and> canonical [] n' \<and> entries n' \<subseteq> set (base t)
    \<and> t' = t\<lparr>sem := sem t + numG t\<rparr>"
proof -
  from assms(2,3) have "scheduled (base t) (n, [], base t)"
    by (simp add: scheduled_def entries_empty_canonical)
  then have "scheduled (base t) (foldl (task_step (numG t - sem t)) (n, [], base t) sch)"
    by (rule foldl_task_step_scheduled)
  from drain_built [OF this] assms(1) show ?thesis
    by (auto simp: insertIntervalM_def split: if_splits)
qed

lemma mtree_BuildTree_root:
  assumes "mtree_BuildTree sch m = Inr m'"
  shows "\<exists>n'. root m' = Some n' \<and> nested n' \<and> canonical [] n'
    \<and> entries n' \<subseteq> set (base m) \<and> base m' = base m"
proof -
  from assms have ne: "base m \<noteq> []"
    by (auto simp: mtree_BuildTree_def split: if_splits)
  from Endpoints_result [OF ne] obtain eps where eps:
    "Endpoints (base m) = Inr (eps, eps ! 0, eps ! (length eps - 1))"
    "eps \<noteq> []" "sorted eps"
    by blast
  define m1 where "m1 = m\<lparr>min' := eps ! 0, max' := eps ! (length eps - 1)\<rparr>"
  define m2 where "m2 = (if length eps < numG m1 * 10 then m1\<lparr>single := True\<rparr> else m1)"
  from mtree_insertNodes_built [OF eps(2,3), of m2 0] obtain n where n:
    "mtree_insertNodes m2 eps 0 = Inr n" "entries n = {}" "nested n"
    by blast
  have b: "base m2 = base m"
    by (simp add: m2_def m1_def)
  have built: "mtree_BuildTree sch m =
      (if \<not> single m2 then
         (case insertIntervalM sch m2 n of
            Inl e \<Rightarrow> Inl e
          | Inr (n, t) \<Rightarrow> Inr (t\<lparr>root := Some n\<rparr>))
       else Inr (m2\<lparr>root := Some (foldl mtree_insertInterval n (base m2))\<rparr>))"
    unfolding mtree_BuildTree_def m2_def m1_def Let_def
    using ne eps(1) n(1) [unfolded m2_def m1_def]
    by (cases "length eps < numG m * 10") simp_all
  show ?thesis
  proof (cases "single m2")
    case True
    with built assms have m': "m' = m2\<lparr>root := Some (foldl mtree_insertInterval n (base m))\<rparr>"
      by (simp add: b)
    from n(2,3) have "nested (foldl mtree_insertInterval n (base m))
      \<and> canonical [] (foldl mtree_insertInterval n (base m))
      \<and> entries (foldl mtree_insertInterval n (base m)) \<subseteq> set (base m)"
      by (intro foldl_mtree_insertInterval_built) (simp_all add: entries_empty_canonical)
    with m' b show ?thesis
      by simp
  next
    case False
    with built assms obtain n' t' where out: "insertIntervalM sch m2 n = Inr (n', t')"
      "m' = t'\<lparr>root := Some n'\<rparr>"
      by (auto split: sum.splits)
    from insertIntervalM_built [OF out(1) n(3,2)] out(2) b show ?thesis
      by simp
  qed
qed

text \<open>
  Two intervals that both contain the segment of a node: started in staging order and
  left to the end, the goroutines append in that order; when the second one is let in
  first, the overlap list has the other order.
\<close>

lemma insertIntervalM_arrival_order:
  "insertIntervalM [] (mtree_Push (mtree_Push NewMTree 0 9) 0 9)
     (Node \<lparr>From = 0, To = 9\<rparr> None None []) =
   Inr (Node \<lparr>From = 0, To = 9\<rparr> None None
          [\<lparr>Id' = 0, Segment = \<lparr>From = 0, To = 9\<rparr>\<rparr>,
           \<lparr>Id' = 1, Segment = \<lparr>From = 0, To = 9\<rparr>\<rparr>],
        (mtree_Push (mtree_Push NewMTree 0 9) 0 9)\<lparr>sem := 64\<rparr>)"
  "insertIntervalM [Start, Start, Advance 1] (mtree_Push (mtree_Push NewMTree 0 9) 0 9)
     (Node \<lparr>From = 0, To = 9\<rparr> None None []) =
   Inr (Node \<lparr>From = 0, To = 9\<rparr> None None
          [\<lparr>Id' = 1, Segment = \<lparr>From = 0, To = 9\<rparr>\<rparr>,
           \<lparr>Id' = 0, Segment = \<lparr>From = 0, To = 9\<rparr>\<rparr>],
        (mtree_Push (mtree_Push NewMTree 0 9) 0 9)\<lparr>sem := 64\<rparr>)"
  by code_simp+

text \<open>
  The schedule decides the order of the intervals in an overlap list and nothing else:
  at every path the node has the segment and the set of intervals that the insertion in
  staging order gives it.
\<close>

lemma node_at_append_at:
  "node_at (append_at n p i) q =
     map_option (with_pending {(p, i)} q) (node_at n q)"
proof (induction n arbitrary: p q rule: node_induct)
  case (Node seg l r ov)
  show ?case
  proof (cases p)
    case Nil
    then show ?thesis
      by (cases q) (auto simp: with_pending_def option.map_ident split: option.splits)
  next
    case (Cons d p')
    show ?thesis
    proof (cases q)
      case Nil
      with Cons show ?thesis
        by (simp add: with_pending_def)
    next
      case q: (Cons e q')
      have keep: "map_option (with_pending {(d # p', i)} (e # q')) x = x" if "d \<noteq> e" for x
        using that by (cases x) (auto simp: with_pending_def)
      have same: "with_pending {(d # p', i)} (d # q') = with_pending {(p', i)} q'"
        by (auto simp: with_pending_def)
      show ?thesis
      proof (cases "d = e")
        case False
        with Cons q keep [OF False] show ?thesis
          by (auto split: option.splits)
      next
        case True
        with Cons q Node.IH(1) [of _ p' q'] Node.IH(2) [of _ p' q'] same show ?thesis
          by (auto split: option.splits)
      qed
    qed
  qed
qed

lemma with_pending_compose:
  "map_option (with_pending E q) (map_option (with_pending F q) x) =
   map_option (with_pending (E \<union> F) q) x"
  by (cases x) (auto simp: with_pending_def)

lemma with_pending_empty: "map_option (with_pending {} q) x = x"
  by (cases x) (auto simp: with_pending_def)

lemma node_at_run_task:
  "node_at (run_task n (i, ps)) q =
     map_option (with_pending {(p, j). j = i \<and> p \<in> set ps} q) (node_at n q)"
proof -
  have "node_at (foldl (\<lambda>n p. append_at n p i) n ps) q =
      map_option (with_pending {(p, j). j = i \<and> p \<in> set ps} q) (node_at n q)"
  proof (induction ps arbitrary: n)
    case Nil
    then show ?case by (simp add: with_pending_empty)
  next
    case (Cons p ps)
    have "{(p', j). j = i \<and> p' \<in> set ps} \<union> {(p, i)} = {(p', j). j = i \<and> p' \<in> set (p # ps)}"
      by auto
    then show ?case
      by (simp add: Cons.IH node_at_append_at with_pending_compose)
  qed
  then show ?thesis
    by (simp add: run_task_def)
qed

lemma targets_run_task [simp]: "targets (run_task n task) = targets n"
proof -
  have "targets (foldl (\<lambda>n p. append_at n p i) n ps) = targets n" for i ps
    by (induction ps arbitrary: n) (simp_all, metis ext targets_append_at)
  then show ?thesis
    by (simp add: run_task_def)
qed

lemma mtree_insertInterval_run_task:
  "mtree_insertInterval n i = run_task n (i, targets n i)"
  by (simp add: run_task_def mtree_insertInterval_steps)

lemma targets_mtree_insertInterval [simp]: "targets (mtree_insertInterval n i) = targets n"
  by (simp add: mtree_insertInterval_run_task)

lemma node_at_drain:
  "node_at (drain st) q = map_option (with_pending (pending st) q) (node_at (fst st) q)"
proof -
  obtain n running waiting where st: "st = (n, running, waiting)"
    by (cases st)
  have run: "node_at (foldl run_task n running) q =
      map_option (with_pending {(p, i). \<exists>ps. (i, ps) \<in> set running \<and> p \<in> set ps} q)
        (node_at n q) \<and> targets (foldl run_task n running) = targets n"
  proof (induction running arbitrary: n)
    case Nil
    then show ?case by (simp add: with_pending_empty)
  next
    case (Cons task running)
    obtain i ps where task: "task = (i, ps)"
      by (cases task)
    have "{(p, j). \<exists>ps'. (j, ps') \<in> set running \<and> p \<in> set ps'} \<union> {(p, j). j = i \<and> p \<in> set ps}
        = {(p, j). \<exists>ps'. (j, ps') \<in> set ((i, ps) # running) \<and> p \<in> set ps'}"
      by auto
    with Cons.IH [of "run_task n task"] task show ?case
      by (simp add: node_at_run_task with_pending_compose)
  qed
  have wait: "node_at (foldl mtree_insertInterval m waiting) q =
      map_option (with_pending {(p, i). i \<in> set waiting \<and> p \<in> set (targets m i)} q)
        (node_at m q)" for m
  proof (induction waiting arbitrary: m)
    case Nil
    then show ?case by (simp add: with_pending_empty)
  next
    case (Cons i waiting)
    have "{(p, j). j \<in> set waiting \<and> p \<in> set (targets m j)}
        \<union> {(p, j). j = i \<and> p \<in> set (targets m i)}
        = {(p, j). j \<in> set (i # waiting) \<and> p \<in> set (targets m j)}"
      by auto
    with Cons.IH [of "mtree_insertInterval m i"] show ?case
      by (simp add: with_pending_compose)
        (simp add: mtree_insertInterval_run_task node_at_run_task with_pending_compose)
  qed
  have "{(p, i). i \<in> set waiting \<and> p \<in> set (targets n i)}
      \<union> {(p, i). \<exists>ps. (i, ps) \<in> set running \<and> p \<in> set ps} = pending st"
    by (auto simp: pending_def st)
  with run wait [of "foldl run_task n running"] show ?thesis
    by (simp add: st drain_def with_pending_compose)
qed


lemma node_at_task_step:
  "node_at (drain (task_step room st turn)) q = node_at (drain st) q"
proof -
  obtain n running waiting where st: "st = (n, running, waiting)"
    by (cases st)
  show ?thesis
  proof (cases turn)
    case Start
    show ?thesis
    proof (cases waiting)
      case Nil
      with Start st show ?thesis by simp
    next
      case (Cons i waiting')
      have "pending (n, running @ [(i, targets n i)], waiting') = pending (n, running, i # waiting')"
        by (auto simp: pending_def)
      with Start st Cons show ?thesis
        by (simp add: node_at_drain)
    qed
  next
    case (Advance j)
    show ?thesis
    proof (cases "j < length running")
      case False
      with Advance st show ?thesis by simp
    next
      case True
      obtain i ps where task: "running ! j = (i, ps)"
        by (cases "running ! j")
      from True task have split: "running = take j running @ (i, ps) # drop (Suc j) running"
        by (metis id_take_nth_drop)
      show ?thesis
      proof (cases ps)
        case Nil
        have "pending (n, take j running @ drop (Suc j) running, waiting) =
            pending (n, take j running @ (i, []) # drop (Suc j) running, waiting)"
          by (auto simp: pending_def)
        with split Nil have "pending (n, take j running @ drop (Suc j) running, waiting) =
            pending (n, running, waiting)"
          by simp
        with Advance st True task Nil show ?thesis
          by (simp add: node_at_drain)
      next
        case (Cons p ps')
        from True have upd: "running[j := (i, ps')] =
            take j running @ (i, ps') # drop (Suc j) running"
          by (rule upd_conv_take_nth_drop)
        have "pending (append_at n p i, take j running @ (i, ps') # drop (Suc j) running, waiting)
              \<union> {(p, i)} =
            pending (n, take j running @ (i, p # ps') # drop (Suc j) running, waiting)"
          by (auto simp: pending_def)
        with split Cons upd have "pending (append_at n p i, running[j := (i, ps')], waiting)
              \<union> {(p, i)} = pending (n, running, waiting)"
          by simp
        with Advance st True task Cons show ?thesis
          by (simp add: node_at_drain node_at_append_at with_pending_compose)
      qed
    qed
  qed
qed

lemma node_at_foldl_task_step:
  "node_at (drain (foldl (task_step room) st sch)) q = node_at (drain st) q"
  by (induction sch arbitrary: st) (simp_all add: node_at_task_step)

lemma insertIntervalM_node_at:
  assumes "insertIntervalM sch t n = Inr (n', t')"
  shows "node_at n' q = node_at (foldl mtree_insertInterval n (base t)) q"
proof -
  have "drain (n, [], base t) = foldl mtree_insertInterval n (base t)"
    by (simp add: drain_def)
  with assms node_at_foldl_task_step [of "numG t - sem t" "(n, [], base t)" sch q]
  show ?thesis
    by (auto simp: insertIntervalM_def split: if_splits)
qed


text \<open>
  A build that is not \<open>single\<close> leaves \<open>sem\<close> full, and a second build of the same
  tree, without \<open>Clear\<close> in between, never returns. Two builds of the same staged
  intervals under different schedules give every node the same segment and the same set
  of intervals.
\<close>

lemma mtree_BuildTree_unfold:
  assumes "base m \<noteq> []"
  shows "\<exists>eps n. Endpoints (base m) = Inr (eps, eps ! 0, eps ! (length eps - 1))
    \<and> entries n = {} \<and> nested n
    \<and> (\<forall>sch. mtree_BuildTree sch m =
        (if length eps < numG m * 10 \<or> single m then
           Inr (m\<lparr>min' := eps ! 0, max' := eps ! (length eps - 1), single := True,
                  root := Some (foldl mtree_insertInterval n (base m))\<rparr>)
         else
           (case insertIntervalM sch
                   (m\<lparr>min' := eps ! 0, max' := eps ! (length eps - 1)\<rparr>) n of
              Inl e \<Rightarrow> Inl e
            | Inr (n', t) \<Rightarrow> Inr (t\<lparr>root := Some n'\<rparr>))))"
proof -
  from Endpoints_result [OF assms] obtain eps where eps:
    "Endpoints (base m) = Inr (eps, eps ! 0, eps ! (length eps - 1))"
    "eps \<noteq> []" "sorted eps"
    by blast
  define m1 where "m1 = m\<lparr>min' := eps ! 0, max' := eps ! (length eps - 1)\<rparr>"
  define m2 where "m2 = (if length eps < numG m1 * 10 then m1\<lparr>single := True\<rparr> else m1)"
  from mtree_insertNodes_built [OF eps(2,3), of m2 0] obtain n where n:
    "mtree_insertNodes m2 eps 0 = Inr n" "entries n = {}" "nested n"
    by blast
  have single: "m1\<lparr>single := True\<rparr> = m1" if "single m"
    using that by (simp add: m1_def)
  have "mtree_BuildTree sch m =
      (if length eps < numG m * 10 \<or> single m then
         Inr (m1\<lparr>single := True, root := Some (foldl mtree_insertInterval n (base m))\<rparr>)
       else
         (case insertIntervalM sch m1 n of
            Inl e \<Rightarrow> Inl e
          | Inr (n', t) \<Rightarrow> Inr (t\<lparr>root := Some n'\<rparr>)))" for sch
    unfolding mtree_BuildTree_def Let_def
    using assms eps(1) n(1) [unfolded m2_def m1_def] single
    by (cases "length eps < numG m * 10"; cases "single m") (simp_all add: m1_def)
  with n(2,3) eps(1) show ?thesis
    unfolding m1_def by blast
qed

lemma mtree_BuildTree_sem:
  assumes "mtree_BuildTree sch m = Inr m'" "\<not> single m'"
  shows "sem m = 0 \<and> sem m' = numG m \<and> numG m' = numG m \<and> numG m \<noteq> 0
    \<and> base m' = base m \<and> (\<exists>eps mn mx. Endpoints (base m) = Inr (eps, mn, mx)
          \<and> \<not> length eps < numG m * 10)"
proof -
  from assms(1) have ne: "base m \<noteq> []"
    by (auto simp: mtree_BuildTree_def split: if_splits)
  from mtree_BuildTree_unfold [OF ne] obtain eps n where u:
    "Endpoints (base m) = Inr (eps, eps ! 0, eps ! (length eps - 1))"
    "mtree_BuildTree sch m =
        (if length eps < numG m * 10 \<or> single m then
           Inr (m\<lparr>min' := eps ! 0, max' := eps ! (length eps - 1), single := True,
                  root := Some (foldl mtree_insertInterval n (base m))\<rparr>)
         else
           (case insertIntervalM sch
                   (m\<lparr>min' := eps ! 0, max' := eps ! (length eps - 1)\<rparr>) n of
              Inl e \<Rightarrow> Inl e
            | Inr (n', t) \<Rightarrow> Inr (t\<lparr>root := Some n'\<rparr>)))"
    by blast
  from u(2) assms have par: "\<not> (length eps < numG m * 10 \<or> single m)"
    by (auto split: if_splits)
  with u(2) assms(1) ne have "sem m = 0 \<and> sem m' = numG m \<and> numG m' = numG m \<and> numG m \<noteq> 0
    \<and> base m' = base m"
    by (auto simp: insertIntervalM_def split: if_splits sum.splits)
  with u(1) par show ?thesis
    by blast
qed

lemma mtree_BuildTree_again:
  assumes "mtree_BuildTree sch m = Inr m'" "\<not> single m'"
  shows "mtree_BuildTree sch' m' = Inl Blocked"
proof -
  from mtree_BuildTree_sem [OF assms] obtain eps mn mx where first:
    "sem m' = numG m'" "numG m' \<noteq> 0" "base m' = base m"
    "Endpoints (base m') = Inr (eps, mn, mx)" "\<not> length eps < numG m' * 10"
    by auto
  from assms(1) first(3) have ne: "base m' \<noteq> []"
    by (auto simp: mtree_BuildTree_def split: if_splits)
  from mtree_BuildTree_unfold [OF ne] first assms(2) show ?thesis
    by (auto simp: insertIntervalM_def)
qed

lemma mtree_BuildTree_schedules:
  assumes "mtree_BuildTree sch m = Inr m1" "root m1 = Some n1"
    and "mtree_BuildTree sch' m = Inr m2" "root m2 = Some n2"
  shows "node_at n1 q = node_at n2 q"
proof -
  from assms(1) have ne: "base m \<noteq> []"
    by (auto simp: mtree_BuildTree_def split: if_splits)
  from mtree_BuildTree_unfold [OF ne] obtain eps n where u:
    "\<And>sch. mtree_BuildTree sch m =
        (if length eps < numG m * 10 \<or> single m then
           Inr (m\<lparr>min' := eps ! 0, max' := eps ! (length eps - 1), single := True,
                  root := Some (foldl mtree_insertInterval n (base m))\<rparr>)
         else
           (case insertIntervalM sch
                   (m\<lparr>min' := eps ! 0, max' := eps ! (length eps - 1)\<rparr>) n of
              Inl e \<Rightarrow> Inl e
            | Inr (n', t) \<Rightarrow> Inr (t\<lparr>root := Some n'\<rparr>)))"
    by blast
  let ?m = "m\<lparr>min' := eps ! 0, max' := eps ! (length eps - 1)\<rparr>"
  show ?thesis
  proof (cases "length eps < numG m * 10 \<or> single m")
    case True
    with u [of sch] u [of sch'] assms show ?thesis
      by auto
  next
    case False
    with u [of sch] assms(1,2) obtain t1 where "insertIntervalM sch ?m n = Inr (n1, t1)"
      by (auto split: sum.splits)
    then have 1: "node_at n1 q = node_at (foldl mtree_insertInterval n (base ?m)) q"
      by (rule insertIntervalM_node_at)
    from False u [of sch'] assms(3,4) obtain t2 where
      "insertIntervalM sch' ?m n = Inr (n2, t2)"
      by (auto split: sum.splits)
    then have "node_at n2 q = node_at (foldl mtree_insertInterval n (base ?m)) q"
      by (rule insertIntervalM_node_at)
    with 1 show ?thesis
      by simp
  qed
qed

section \<open>The formulations agree on built trees\<close>

lemma BuildTree_root:
  assumes "BuildTree t = Inr t'"
  shows "\<exists>n. root t' = Some (foldl insertInterval n (base t)) \<and> entries n = {} \<and> nested n
    \<and> spans n"
proof -
  from assms have "base t \<noteq> []"
    by (auto simp: BuildTree_def split: if_splits)
  from BuildTree_structure [OF this] assms show ?thesis
    by auto
qed

declare insertNodes_v1.simps [simp del]

lemma insertNodes_v1_built:
  "e \<noteq> [] \<Longrightarrow> sorted e \<Longrightarrow>
   \<exists>n. insertNodes_v1 e = Inr n \<and> entries n = {}
     \<and> segment n = \<lparr>From = e ! 0, To = e ! (length e - 1)\<rparr> \<and> nested n"
proof (induction e rule: insertNodes_v1.induct)
  case (1 endpoint)
  note srt = \<open>sorted endpoint\<close> and ne = \<open>endpoint \<noteq> []\<close>
  show ?case
  proof (cases "length endpoint = 1")
    case True
    then show ?thesis
      by (subst insertNodes_v1.simps) simp
  next
    case False
    define c where "c = length endpoint div 2"
    from False ne have "length endpoint \<noteq> 0" "length endpoint \<noteq> 1"
      by simp_all
    then have "2 \<le> length endpoint"
      by arith
    then have c: "0 < c" "c < length endpoint"
      by (simp_all add: c_def)
    then have tne: "take c endpoint \<noteq> []" and dne: "drop c endpoint \<noteq> []"
      by auto
    have st: "sorted (take c endpoint)" and sd: "sorted (drop c endpoint)"
      using srt by (simp_all add: sorted_wrt_take sorted_wrt_drop)
    have ends: "take c endpoint ! 0 = endpoint ! 0"
      "take c endpoint ! (length (take c endpoint) - 1) = endpoint ! (c - 1)"
      "drop c endpoint ! 0 = endpoint ! c"
      "drop c endpoint ! (length (drop c endpoint) - 1) = endpoint ! (length endpoint - 1)"
    proof -
      from c have "length (take c endpoint) - 1 = c - 1" "c - 1 < c"
        by simp_all
      then show "take c endpoint ! (length (take c endpoint) - 1) = endpoint ! (c - 1)"
        by simp
      from c have "c + (length (drop c endpoint) - 1) = length endpoint - 1"
        by simp
      with c show "drop c endpoint ! (length (drop c endpoint) - 1) =
          endpoint ! (length endpoint - 1)"
        by (simp only: nth_drop less_imp_le_nat)
    qed (use c in simp_all)
    from "1.IH"(1) [OF False ne refl c_def tne st] obtain l where l:
      "insertNodes_v1 (take c endpoint) = Inr l" "entries l = {}" "nested l"
      "segment l = \<lparr>From = endpoint ! 0, To = endpoint ! (c - 1)\<rparr>"
      unfolding ends by blast
    from "1.IH"(2) [OF False ne refl c_def l(1) dne sd] obtain r where r:
      "insertNodes_v1 (drop c endpoint) = Inr r" "entries r = {}" "nested r"
      "segment r = \<lparr>From = endpoint ! c, To = endpoint ! (length endpoint - 1)\<rparr>"
      unfolding ends by blast
    let ?seg = "\<lparr>From = endpoint ! 0, To = endpoint ! (length endpoint - 1)\<rparr>"
    have built: "insertNodes_v1 endpoint = Inr (Node ?seg (Some l) (Some r) [])"
      using False ne l(1) r(1) by (subst insertNodes_v1.simps) (simp add: c_def Let_def)
    have ord: "endpoint ! 0 \<le> endpoint ! (c - 1)"
      "endpoint ! (c - 1) \<le> endpoint ! (length endpoint - 1)"
      "endpoint ! 0 \<le> endpoint ! c" "endpoint ! c \<le> endpoint ! (length endpoint - 1)"
      using c by (auto intro!: sorted_first_last [OF srt])
    have "nested (Node ?seg (Some l) (Some r) [])"
      using l r ord by (simp add: subsetOf_def)
    with built l(2) r(2) show ?thesis
      by simp
  qed
qed

lemma insertInterval_CompareTo_nested [simp]:
  "nested n \<Longrightarrow> nested (insertInterval_CompareTo n i)"
  by (simp add: insertInterval_agree)

lemma BuildTree_v1_root:
  assumes "BuildTree_v1 t = Inr t'"
  shows "\<exists>n. root t' = Some (foldl insertInterval n (base t)) \<and> entries n = {} \<and> nested n"
proof -
  from assms have ne: "base t \<noteq> []"
    by (auto simp: BuildTree_v1_def split: if_splits)
  from Endpoints_result [OF ne] obtain eps where eps:
    "Endpoints (base t) = Inr (eps, eps ! 0, eps ! (length eps - 1))" "eps \<noteq> []" "sorted eps"
    by blast
  from insertNodes_v1_built [OF eps(2,3)] obtain n where n:
    "insertNodes_v1 eps = Inr n" "entries n = {}" "nested n"
    by blast
  with assms ne eps(1) have "root t' = Some (foldl insertInterval_CompareTo n (base t))"
    by (auto simp: BuildTree_v1_def)
  with n show ?thesis
    by (auto simp: foldl_insertInterval_agree)
qed

text \<open>
  Claim C8. On every tree that \<open>BuildTree\<close> returns, in the current or the earlier
  sequential version or in the parallel one under any schedule, and for every interval,
  the formulation that enters every child and prunes at the entry of the call
  (\<open>insertInterval_CompareTo\<close>, and \<open>mtree_insertInterval\<close> with its lock) and the
  formulation that tests the child before entering it (\<open>insertInterval\<close>) return the
  same tree, hence the same overlap list at every node; and a tree of a sequential build
  is itself the one that either formulation builds from the empty skeleton and the
  staged intervals.
\<close>

theorem insertInterval_formulations_agree:
  "(BuildTree t = Inr t' \<longrightarrow> root t' = Some n \<longrightarrow>
      insertInterval_CompareTo n i = insertInterval n i
      \<and> mtree_insertInterval n i = insertInterval n i
      \<and> (\<exists>n0. entries n0 = {} \<and> n = foldl insertInterval n0 (base t)
            \<and> n = foldl insertInterval_CompareTo n0 (base t)))
   \<and> (BuildTree_v1 t = Inr t1 \<longrightarrow> root t1 = Some n1 \<longrightarrow>
      insertInterval_CompareTo n1 i = insertInterval n1 i
      \<and> (\<exists>n0. entries n0 = {} \<and> n1 = foldl insertInterval n0 (base t)
            \<and> n1 = foldl insertInterval_CompareTo n0 (base t)))
   \<and> (mtree_BuildTree sch m = Inr m' \<longrightarrow> root m' = Some n' \<longrightarrow>
      insertInterval n' i = mtree_insertInterval n' i
      \<and> insertInterval n' i = insertInterval_CompareTo n' i)"
proof -
  have built: "insertInterval_CompareTo rt i = insertInterval rt i
      \<and> mtree_insertInterval rt i = insertInterval rt i
      \<and> (\<exists>n0. entries n0 = {} \<and> rt = foldl insertInterval n0 is
            \<and> rt = foldl insertInterval_CompareTo n0 is
            \<and> rt = foldl mtree_insertInterval n0 is)"
    if "rt = foldl insertInterval n0 is" "entries n0 = {}" "nested n0" for rt n0 "is"
  proof -
    from that have "nested rt"
      by simp
    then have "insertInterval_CompareTo rt i = insertInterval rt i"
      by (rule insertInterval_agree)
    moreover from this have "mtree_insertInterval rt i = insertInterval rt i"
      by (simp add: mtree_insertInterval_CompareTo)
    moreover from that have "rt = foldl insertInterval_CompareTo n0 is"
      "rt = foldl mtree_insertInterval n0 is"
      by (simp_all add: foldl_insertInterval_agree foldl_mtree_insertInterval)
    ultimately show ?thesis
      using that(1,2) by blast
  qed
  have seq: "insertInterval_CompareTo n i = insertInterval n i
      \<and> mtree_insertInterval n i = insertInterval n i
      \<and> (\<exists>n0. entries n0 = {} \<and> n = foldl insertInterval n0 (base t)
            \<and> n = foldl insertInterval_CompareTo n0 (base t))"
    if "BuildTree t = Inr t'" "root t' = Some n"
  proof -
    from BuildTree_root [OF that(1)] that(2) obtain n0 where
      "n = foldl insertInterval n0 (base t)" "entries n0 = {}" "nested n0"
      by auto
    from built [OF this] show ?thesis
      by blast
  qed
  have old: "insertInterval_CompareTo n1 i = insertInterval n1 i
      \<and> (\<exists>n0. entries n0 = {} \<and> n1 = foldl insertInterval n0 (base t)
            \<and> n1 = foldl insertInterval_CompareTo n0 (base t))"
    if "BuildTree_v1 t = Inr t1" "root t1 = Some n1"
  proof -
    from BuildTree_v1_root [OF that(1)] that(2) obtain n0 where
      "n1 = foldl insertInterval n0 (base t)" "entries n0 = {}" "nested n0"
      by auto
    from built [OF this] show ?thesis
      by blast
  qed
  have par: "insertInterval n' i = mtree_insertInterval n' i
      \<and> insertInterval n' i = insertInterval_CompareTo n' i"
    if "mtree_BuildTree sch m = Inr m'" "root m' = Some n'"
  proof -
    from mtree_BuildTree_root [OF that(1)] that(2) have "nested n'"
      by auto
    then have "insertInterval_CompareTo n' i = insertInterval n' i"
      by (rule insertInterval_agree)
    then show ?thesis
      by (simp add: mtree_insertInterval_CompareTo)
  qed
  from seq old par show ?thesis
    by blast
qed

section \<open>Canonical insertion\<close>

lemma entries_nodes: "entries n = (\<Union>N \<in> set (nodes n). set (overlap N))"
proof (induction n rule: node_induct)
  case (Node seg l r ov)
  then show ?case
    by (auto split: option.splits)
qed

lemma canonical_entries:
  "canonical anc n \<Longrightarrow> j \<in> entries n \<Longrightarrow> \<forall>a \<in> set anc. \<not> subsetOf a (Segment j)"
proof (induction n arbitrary: anc rule: node_induct)
  case (Node seg l r ov)
  from Node.prems(2) consider "j \<in> set ov"
    | ln where "l = Some ln" "j \<in> entries ln"
    | rn where "r = Some rn" "j \<in> entries rn"
    by (auto split: option.splits)
  then show ?case
  proof cases
    case 1
    with Node.prems(1) show ?thesis by simp
  next
    case 2
    with Node.prems(1) Node.IH(1) [of ln "seg # anc"] show ?thesis by simp
  next
    case 3
    with Node.prems(1) Node.IH(2) [of rn "seg # anc"] show ?thesis by simp
  qed
qed

lemma canonical_nodes:
  "canonical anc n \<Longrightarrow> N \<in> set (nodes n) \<Longrightarrow> \<exists>anc'. canonical anc' N"
proof (induction n arbitrary: anc rule: node_induct)
  case (Node seg l r ov)
  from Node.prems(2) consider "N = Node seg l r ov"
    | ln where "l = Some ln" "N \<in> set (nodes ln)"
    | rn where "r = Some rn" "N \<in> set (nodes rn)"
    by (auto split: option.splits)
  then show ?case
  proof cases
    case 1
    with Node.prems(1) show ?thesis by blast
  next
    case 2
    with Node.prems(1) Node.IH(1) [of ln "seg # anc"] show ?thesis by simp
  next
    case 3
    with Node.prems(1) Node.IH(2) [of rn "seg # anc"] show ?thesis by simp
  qed
qed

lemma canonical_node:
  assumes "canonical anc N" "i \<in> set (overlap N)"
  shows "subsetOf (segment N) (Segment i)"
    and "\<forall>D \<in> set (descendants N). i \<notin> set (overlap D)"
proof -
  obtain seg l r ov where N: "N = Node seg l r ov"
    by (cases N)
  with assms show sub: "subsetOf (segment N) (Segment i)"
    by simp
  show "\<forall>D \<in> set (descendants N). i \<notin> set (overlap D)"
  proof
    fix D assume "D \<in> set (descendants N)"
    with N consider ln where "l = Some ln" "D \<in> set (nodes ln)"
      | rn where "r = Some rn" "D \<in> set (nodes rn)"
      by (auto simp: descendants_def split: option.splits)
    then show "i \<notin> set (overlap D)"
    proof cases
      case 1
      show ?thesis
      proof
        assume "i \<in> set (overlap D)"
        with 1 have "i \<in> entries ln"
          by (auto simp: entries_nodes)
        moreover from assms(1) N 1 have "canonical (seg # anc) ln"
          by simp
        ultimately have "\<not> subsetOf seg (Segment i)"
          using canonical_entries by fastforce
        with sub N show False by simp
      qed
    next
      case 2
      show ?thesis
      proof
        assume "i \<in> set (overlap D)"
        with 2 have "i \<in> entries rn"
          by (auto simp: entries_nodes)
        moreover from assms(1) N 2 have "canonical (seg # anc) rn"
          by simp
        ultimately have "\<not> subsetOf seg (Segment i)"
          using canonical_entries by fastforce
        with sub N show False by simp
      qed
    qed
  qed
qed

lemma built_canonical:
  assumes "entries n0 = {}" "N \<in> set (nodes (foldl insertInterval n0 is))"
    "i \<in> set (overlap N)"
  shows "i \<in> set is \<and> subsetOf (segment N) (Segment i)
    \<and> (\<forall>D \<in> set (descendants N). i \<notin> set (overlap D))"
proof -
  let ?root = "foldl insertInterval n0 is"
  have "canonical [] ?root"
    using assms(1) by (intro foldl_insertInterval_canonical entries_empty_canonical)
  from canonical_nodes [OF this assms(2)] obtain anc where "canonical anc N"
    by blast
  note c = canonical_node [OF this assms(3)]
  from assms(2,3) have "i \<in> entries ?root"
    by (auto simp: entries_nodes)
  with foldl_insertInterval_entries [of n0 "is"] assms(1) have "i \<in> set is"
    by auto
  with c show ?thesis
    by simp
qed

text \<open>
  Claim C4. In every tree that \<open>BuildTree\<close> returns, sequential or parallel under any
  schedule, an interval found in the overlap list of a node is a staged interval whose
  segment contains the node's segment, and it is in the overlap list of no descendant of
  that node.
\<close>

theorem canonical_insertion:
  "(BuildTree t = Inr t' \<longrightarrow> root t' = Some rt \<longrightarrow>
      (\<forall>N \<in> set (nodes rt). \<forall>i \<in> set (overlap N).
         i \<in> set (base t) \<and> subsetOf (segment N) (Segment i)
         \<and> (\<forall>D \<in> set (descendants N). i \<notin> set (overlap D))))
   \<and> (mtree_BuildTree sch m = Inr m' \<longrightarrow> root m' = Some rt' \<longrightarrow>
      (\<forall>N \<in> set (nodes rt'). \<forall>i \<in> set (overlap N).
         i \<in> set (base m) \<and> subsetOf (segment N) (Segment i)
         \<and> (\<forall>D \<in> set (descendants N). i \<notin> set (overlap D))))"
proof -
  have seq: "i \<in> set (base t) \<and> subsetOf (segment N) (Segment i)
      \<and> (\<forall>D \<in> set (descendants N). i \<notin> set (overlap D))"
    if "BuildTree t = Inr t'" "root t' = Some rt" "N \<in> set (nodes rt)" "i \<in> set (overlap N)"
    for N i
  proof -
    from that BuildTree_root [of t t'] obtain n0 where
      "entries n0 = {}" "N \<in> set (nodes (foldl insertInterval n0 (base t)))"
      by auto
    from built_canonical [OF this that(4)] show ?thesis .
  qed
  have par: "i \<in> set (base m) \<and> subsetOf (segment N) (Segment i)
      \<and> (\<forall>D \<in> set (descendants N). i \<notin> set (overlap D))"
    if "mtree_BuildTree sch m = Inr m'" "root m' = Some rt'" "N \<in> set (nodes rt')"
      "i \<in> set (overlap N)"
    for N i
  proof -
    from mtree_BuildTree_root [OF that(1)] that(2) have
      c: "canonical [] rt'" and e: "entries rt' \<subseteq> set (base m)"
      by auto
    from canonical_nodes [OF c that(3)] obtain anc where "canonical anc N"
      by blast
    note cn = canonical_node [OF this that(4)]
    from that(3,4) have "i \<in> entries rt'"
      by (auto simp: entries_nodes)
    with e cn show ?thesis
      by auto
  qed
  from seq par show ?thesis
    by blast
qed

section \<open>Batched queries\<close>

lemma queryMulti_loop_result:
  "length from \<le> length to \<Longrightarrow>
   \<exists>res. queryMulti_loop seg ov from to (result, hitsFrom, hitsTo) =
       Inr (res,
         hitsFrom @ map fst (filter (\<lambda>(f, t). \<not> Disjoint seg f t) (zip from to)),
         hitsTo @ map snd (filter (\<lambda>(f, t). \<not> Disjoint seg f t) (zip from to)))
     \<and> dom res = dom result \<union>
         (if filter (\<lambda>(f, t). \<not> Disjoint seg f t) (zip from to) = [] then {}
          else Id' ` set ov)
     \<and> (keyed result \<longrightarrow> keyed res)"
proof (induction seg ov "from" to "(result, hitsFrom, hitsTo)"
    arbitrary: result hitsFrom hitsTo rule: queryMulti_loop.induct)
  case (1 seg ov to)
  then show ?case by simp
next
  case (2 seg ov fromvalue "from")
  then show ?case by simp
next
  case (3 seg ov fromvalue "from" tovalue to result hitsFrom hitsTo)
  from "3.prems" have len: "length from \<le> length to"
    by simp
  show ?case
  proof (cases "Disjoint seg fromvalue tovalue")
    case True
    with "3.hyps" [OF _ len, of result hitsFrom hitsTo] show ?thesis
      by simp
  next
    case False
    with "3.hyps" [OF _ len, of "addOverlap ov result" "hitsFrom @ [fromvalue]"
        "hitsTo @ [tovalue]"]
    show ?thesis
      by (auto simp: addOverlap_dom addOverlap_keyed)
  qed
qed

lemma queryMulti_result:
  "length from \<le> length to \<Longrightarrow>
   \<exists>res. queryMulti n from to result = Inr res
     \<and> dom res = dom result \<union> Id' ` (\<Union>(f, t) \<in> set (zip from to). found n f t)
     \<and> (keyed result \<longrightarrow> keyed res)"
proof (induction n arbitrary: "from" to result rule: node_induct)
  case (Node seg l r ov)
  let ?hits = "filter (\<lambda>(f, t). \<not> Disjoint seg f t) (zip from to)"
  let ?hf = "map fst ?hits" and ?ht = "map snd ?hits"
  from queryMulti_loop_result [OF Node.prems, of seg ov result "[]" "[]"]
  obtain res0 where res0:
    "queryMulti_loop seg ov from to (result, [], []) = Inr (res0, ?hf, ?ht)"
    "dom res0 = dom result \<union> (if ?hits = [] then {} else Id' ` set ov)"
    "keyed result \<longrightarrow> keyed res0"
    by auto
  have z: "zip ?hf ?ht = ?hits"
    by (rule zip_map_fst_snd)
  have lenh: "length ?hf \<le> length ?ht"
    by simp
  have here: "(\<Union>(f, t) \<in> set (zip from to). found (Node seg l r ov) f t) =
      (if ?hits = [] then {} else set ov)
      \<union> (\<Union>(f, t) \<in> set ?hits. case r of None \<Rightarrow> {} | Some rn \<Rightarrow> found rn f t)
      \<union> (\<Union>(f, t) \<in> set ?hits. case l of None \<Rightarrow> {} | Some ln \<Rightarrow> found ln f t)"
    by (auto simp: filter_empty_conv split: if_splits) blast+
  show ?case
  proof (cases "?hits = []")
    case True
    with res0 here show ?thesis
      by simp
  next
    case False
    have "\<exists>res1. (case r of None \<Rightarrow> Inr res0 | Some rn \<Rightarrow> queryMulti rn ?hf ?ht res0) = Inr res1
        \<and> dom res1 = dom res0
            \<union> Id' ` (\<Union>(f, t) \<in> set ?hits. case r of None \<Rightarrow> {} | Some rn \<Rightarrow> found rn f t)
        \<and> (keyed res0 \<longrightarrow> keyed res1)"
    proof (cases r)
      case None
      then show ?thesis by simp
    next
      case (Some rn)
      from Node.IH(2) [OF Some lenh, of res0] z Some show ?thesis
        by simp
    qed
    then obtain res1 where res1:
      "(case r of None \<Rightarrow> Inr res0 | Some rn \<Rightarrow> queryMulti rn ?hf ?ht res0) = Inr res1"
      "dom res1 = dom res0
         \<union> Id' ` (\<Union>(f, t) \<in> set ?hits. case r of None \<Rightarrow> {} | Some rn \<Rightarrow> found rn f t)"
      "keyed res0 \<longrightarrow> keyed res1"
      by blast
    have "\<exists>res2. (case l of None \<Rightarrow> Inr res1 | Some ln \<Rightarrow> queryMulti ln ?hf ?ht res1) = Inr res2
        \<and> dom res2 = dom res1
            \<union> Id' ` (\<Union>(f, t) \<in> set ?hits. case l of None \<Rightarrow> {} | Some ln \<Rightarrow> found ln f t)
        \<and> (keyed res1 \<longrightarrow> keyed res2)"
    proof (cases l)
      case None
      then show ?thesis by simp
    next
      case (Some ln)
      from Node.IH(1) [OF Some lenh, of res1] z Some show ?thesis
        by simp
    qed
    then obtain res2 where res2:
      "(case l of None \<Rightarrow> Inr res1 | Some ln \<Rightarrow> queryMulti ln ?hf ?ht res1) = Inr res2"
      "dom res2 = dom res1
         \<union> Id' ` (\<Union>(f, t) \<in> set ?hits. case l of None \<Rightarrow> {} | Some ln \<Rightarrow> found ln f t)"
      "keyed res1 \<longrightarrow> keyed res2"
      by blast
    have "queryMulti (Node seg l r ov) from to result = Inr res2"
      using res0(1) res1(1) res2(1) False by simp
    moreover have "dom res2 = dom result
        \<union> Id' ` (\<Union>(f, t) \<in> set (zip from to). found (Node seg l r ov) f t)"
      unfolding here res2(2) res1(2) res0(2) using False
      by (simp only: if_False image_Un Un_assoc)
    ultimately show ?thesis
      using res0(3) res1(3) res2(3) by blast
  qed
qed

lemma Query_ids:
  "root t = Some n \<Longrightarrow> result_ids (Query t from to) = Id' ` found n from to"
proof -
  assume "root t = Some n"
  then have "result_ids (Query t from to) = ids (querySingle n from to Map.empty)"
    by (simp add: Query_def result_ids_def)
  also have "\<dots> = dom (querySingle n from to Map.empty)"
    by (intro keyed_ids querySingle_keyed) simp
  also have "\<dots> = Id' ` found n from to"
    by (simp add: querySingle_dom)
  finally show ?thesis .
qed

text \<open>
  Claim C6. On a tree with a root, for range slices \<open>froms\<close> and \<open>tos\<close> where \<open>tos\<close>
  is at least as long as \<open>froms\<close> (equal length in particular), \<open>QueryArray\<close> returns,
  every single \<open>Query\<close> returns, and the ids of the batched answer are the union of the
  ids of the answers to \<open>Query (froms ! i) (tos ! i)\<close>.
\<close>

theorem QueryArray_union:
  assumes "root t = Some n" and "length froms \<le> length tos"
  shows "\<exists>result. QueryArray t froms tos = Inr (result, t)
    \<and> (\<forall>i < length froms. \<exists>ri. Query t (froms ! i) (tos ! i) = Inr (ri, t))
    \<and> ids result = (\<Union>i < length froms. result_ids (Query t (froms ! i) (tos ! i)))"
proof -
  from queryMulti_result [OF assms(2), of n Map.empty] obtain result where r:
    "queryMulti n froms tos Map.empty = Inr result"
    "dom result = Id' ` (\<Union>(f, t) \<in> set (zip froms tos). found n f t)"
    "keyed result"
    by auto
  have "(\<Union>(f, t) \<in> set (zip froms tos). found n f t) =
      (\<Union>i < length froms. found n (froms ! i) (tos ! i))"
    using assms(2) by (auto simp: set_zip)
  with r(2) have "dom result = (\<Union>i < length froms. Id' ` found n (froms ! i) (tos ! i))"
    by (simp add: image_UN)
  with r(3) have "ids result = (\<Union>i < length froms. result_ids (Query t (froms ! i) (tos ! i)))"
    by (simp add: keyed_ids Query_ids [OF assms(1)])
  moreover have "QueryArray t froms tos = Inr (result, t)"
    using assms(1) r(1) by (simp add: QueryArray_def)
  moreover have "\<forall>i < length froms. \<exists>ri. Query t (froms ! i) (tos ! i) = Inr (ri, t)"
    using assms(1) by (simp add: Query_def)
  ultimately show ?thesis
    by blast
qed

section \<open>The parallel walker\<close>

lemma querySingle_m_unfold:
  "querySingle_m (Node seg l r ov) from to result tw back =
     (let (result, tw) =
        (if \<not> Disjoint seg from to then
           querySingle_m_child l from to
             (querySingle_m_child r from to (addOverlap ov result, tw))
         else (result, tw))
      in if back then (result, tw\<lparr>result_chan := result_chan tw @ [result]\<rparr>)
         else (result, tw))"
  by (simp add: querySingle_m_child_def Let_def split: option.splits prod.splits)

lemma select_queue_cases:
  assumes "select_queue tw = (sent, tw1)"
  shows "num tw1 = num tw" "result_chan tw1 = result_chan tw"
    "sent \<Longrightarrow> queue tw1 = queue tw + 1 \<and> queue tw < num tw"
    "\<not> sent \<Longrightarrow> queue tw1 = queue tw"
  using assms by (auto simp: select_queue_def split: list.splits if_splits)

lemma walkedI:
  assumes "num (snd after) = num (snd before)"
    and "queue (snd before) \<le> queue (snd after)"
    and "queue (snd before) \<le> num (snd before) \<Longrightarrow> queue (snd after) \<le> num (snd before)"
    and "length (result_chan (snd after)) + queue (snd before) =
          length (result_chan (snd before)) + queue (snd after) + (if back then 1 else 0)"
    and "dom (fst after) \<union> chan_ids (snd after) =
          dom (fst before) \<union> chan_ids (snd before) \<union> S"
    and "back \<Longrightarrow> dom (fst after) \<subseteq> chan_ids (snd after)"
    and "keyed (fst before) \<Longrightarrow> \<forall>rmap \<in> set (result_chan (snd before)). keyed rmap \<Longrightarrow>
          keyed (fst after) \<and> (\<forall>rmap \<in> set (result_chan (snd after)). keyed rmap)"
  shows "walked before back S after"
  unfolding walked_def using assms by blast

lemma walkedD:
  assumes "walked before back S after"
  shows "num (snd after) = num (snd before)"
    and "queue (snd before) \<le> queue (snd after)"
    and "queue (snd before) \<le> num (snd before) \<Longrightarrow> queue (snd after) \<le> num (snd before)"
    and "length (result_chan (snd after)) + queue (snd before) =
          length (result_chan (snd before)) + queue (snd after) + (if back then 1 else 0)"
    and "dom (fst after) \<union> chan_ids (snd after) =
          dom (fst before) \<union> chan_ids (snd before) \<union> S"
    and "back \<Longrightarrow> dom (fst after) \<subseteq> chan_ids (snd after)"
    and "keyed (fst before) \<Longrightarrow> \<forall>rmap \<in> set (result_chan (snd before)). keyed rmap \<Longrightarrow>
          keyed (fst after) \<and> (\<forall>rmap \<in> set (result_chan (snd after)). keyed rmap)"
  using assms unfolding walked_def by blast+

lemma walked_refl: "walked st False {} st"
  by (rule walkedI) simp_all

lemma walked_trans:
  assumes a: "walked st0 False S1 st1" and b: "walked st1 False S2 st2"
  shows "walked st0 False (S1 \<union> S2) st2"
proof (rule walkedI)
  note A = walkedD [OF a] and B = walkedD [OF b]
  show "num (snd st2) = num (snd st0)"
    using A(1) B(1) by simp
  show "queue (snd st0) \<le> queue (snd st2)"
    using A(2) B(2) by simp
  show "queue (snd st2) \<le> num (snd st0)" if "queue (snd st0) \<le> num (snd st0)"
    using A(3) [OF that] B(3) A(1) by simp
  show "length (result_chan (snd st2)) + queue (snd st0) =
      length (result_chan (snd st0)) + queue (snd st2) + (if False then 1 else 0)"
    using A(4) B(4) by simp
  show "dom (fst st2) \<union> chan_ids (snd st2) = dom (fst st0) \<union> chan_ids (snd st0) \<union> (S1 \<union> S2)"
    using A(5) B(5) by (simp add: Un_assoc)
  show "False \<Longrightarrow> dom (fst st2) \<subseteq> chan_ids (snd st2)"
    by simp
  show "keyed (fst st2) \<and> (\<forall>rmap \<in> set (result_chan (snd st2)). keyed rmap)"
    if "keyed (fst st0)" "\<forall>rmap \<in> set (result_chan (snd st0)). keyed rmap"
    using A(7) [OF that] B(7) by simp
qed

lemma walked_spawn:
  assumes sel: "select_queue tw = (True, tw1)"
    and w: "walked (Map.empty, tw1) True S (res, tw2)"
  shows "walked (result, tw) False S (result, tw2)"
proof (rule walkedI)
  note s = select_queue_cases [OF sel] and W = walkedD [OF w]
  from s(3) have q: "queue tw1 = queue tw + 1" "queue tw < num tw"
    by simp_all
  have c1: "chan_ids tw1 = chan_ids tw"
    using s(2) by (simp add: chan_ids_def)
  show "num (snd (result, tw2)) = num (snd (result, tw))"
    using W(1) s(1) by simp
  show "queue (snd (result, tw)) \<le> queue (snd (result, tw2))"
    using W(2) q by simp
  show "queue (snd (result, tw2)) \<le> num (snd (result, tw))"
    if "queue (snd (result, tw)) \<le> num (snd (result, tw))"
    using W(3) q s(1) by simp
  show "length (result_chan (snd (result, tw2))) + queue (snd (result, tw)) =
      length (result_chan (snd (result, tw))) + queue (snd (result, tw2))
        + (if False then 1 else 0)"
    using W(4) q s(2) by simp
  from W(5) W(6) have "chan_ids tw2 = chan_ids tw1 \<union> S"
    by auto
  then show "dom (fst (result, tw2)) \<union> chan_ids (snd (result, tw2)) =
      dom (fst (result, tw)) \<union> chan_ids (snd (result, tw)) \<union> S"
    using c1 by (simp add: Un_assoc)
  show "False \<Longrightarrow> dom (fst (result, tw2)) \<subseteq> chan_ids (snd (result, tw2))"
    by simp
  show "keyed (fst (result, tw2)) \<and> (\<forall>rmap \<in> set (result_chan (snd (result, tw2))). keyed rmap)"
    if "keyed (fst (result, tw))" "\<forall>rmap \<in> set (result_chan (snd (result, tw))). keyed rmap"
    using W(7) that s(2) by simp
qed

lemma walked_inline:
  assumes sel: "select_queue tw = (False, tw1)"
    and w: "walked (result, tw1) False S st"
  shows "walked (result, tw) False S st"
proof (rule walkedI)
  note s = select_queue_cases [OF sel] and W = walkedD [OF w]
  from s(4) have q: "queue tw1 = queue tw"
    by simp
  have c1: "chan_ids tw1 = chan_ids tw"
    using s(2) by (simp add: chan_ids_def)
  show "num (snd st) = num (snd (result, tw))"
    using W(1) s(1) by simp
  show "queue (snd (result, tw)) \<le> queue (snd st)"
    using W(2) q by simp
  show "queue (snd st) \<le> num (snd (result, tw))"
    if "queue (snd (result, tw)) \<le> num (snd (result, tw))"
    using W(3) that q s(1) by simp
  show "length (result_chan (snd st)) + queue (snd (result, tw)) =
      length (result_chan (snd (result, tw))) + queue (snd st) + (if False then 1 else 0)"
    using W(4) q s(2) by simp
  show "dom (fst st) \<union> chan_ids (snd st) =
      dom (fst (result, tw)) \<union> chan_ids (snd (result, tw)) \<union> S"
    using W(5) c1 by simp
  show "False \<Longrightarrow> dom (fst st) \<subseteq> chan_ids (snd st)"
    by simp
  show "keyed (fst st) \<and> (\<forall>rmap \<in> set (result_chan (snd st)). keyed rmap)"
    if "keyed (fst (result, tw))" "\<forall>rmap \<in> set (result_chan (snd (result, tw))). keyed rmap"
    using W(7) that s(2) by simp
qed

lemma walked_send:
  assumes w: "walked st False S (result, tw)"
  shows "walked st True S (result, tw\<lparr>result_chan := result_chan tw @ [result]\<rparr>)"
proof (rule walkedI)
  note W = walkedD [OF w]
  let ?tw = "tw\<lparr>result_chan := result_chan tw @ [result]\<rparr>"
  have c: "chan_ids ?tw = chan_ids tw \<union> dom result"
    by (simp add: chan_ids_def Un_commute)
  show "num (snd (result, ?tw)) = num (snd st)"
    using W(1) by simp
  show "queue (snd st) \<le> queue (snd (result, ?tw))"
    using W(2) by simp
  show "queue (snd (result, ?tw)) \<le> num (snd st)" if "queue (snd st) \<le> num (snd st)"
    using W(3) [OF that] by simp
  show "length (result_chan (snd (result, ?tw))) + queue (snd st) =
      length (result_chan (snd st)) + queue (snd (result, ?tw)) + (if True then 1 else 0)"
    using W(4) by simp
  show "dom (fst (result, ?tw)) \<union> chan_ids (snd (result, ?tw)) =
      dom (fst st) \<union> chan_ids (snd st) \<union> S"
    using W(5) c by auto
  show "True \<Longrightarrow> dom (fst (result, ?tw)) \<subseteq> chan_ids (snd (result, ?tw))"
    using c by auto
  show "keyed (fst (result, ?tw)) \<and> (\<forall>rmap \<in> set (result_chan (snd (result, ?tw))). keyed rmap)"
    if "keyed (fst st)" "\<forall>rmap \<in> set (result_chan (snd st)). keyed rmap"
    using W(7) [OF that] by simp
qed

lemma walked_addOverlap:
  "walked (result, tw) False (Id' ` set ov) (addOverlap ov result, tw)"
  by (rule walkedI) (simp_all add: addOverlap_dom addOverlap_keyed Un_ac)

declare querySingle_m.simps [simp del]

lemma querySingle_m_child_walked:
  assumes ih: "\<And>cn result tw back. c = Some cn \<Longrightarrow>
      walked (result, tw) back (Id' ` found cn from to) (querySingle_m cn from to result tw back)"
  shows "walked st False
      (Id' ` (case c of None \<Rightarrow> {} | Some cn \<Rightarrow> found cn from to))
      (querySingle_m_child c from to st)"
proof (cases c)
  case None
  then show ?thesis
    by (simp add: querySingle_m_child_def walked_refl)
next
  case (Some cn)
  obtain result tw where st: "st = (result, tw)"
    by (cases st)
  obtain sent tw1 where sel: "select_queue tw = (sent, tw1)"
    by (cases "select_queue tw")
  show ?thesis
  proof (cases sent)
    case True
    obtain res tw2 where q: "querySingle_m cn from to Map.empty tw1 True = (res, tw2)"
      by (cases "querySingle_m cn from to Map.empty tw1 True")
    from ih [OF Some, of Map.empty tw1 True] q
    have "walked (Map.empty, tw1) True (Id' ` found cn from to) (res, tw2)"
      by simp
    from walked_spawn [OF _ this, of tw result] sel True
    have "walked (result, tw) False (Id' ` found cn from to) (result, tw2)"
      by simp
    then show ?thesis
      using Some st sel True q by (simp add: querySingle_m_child_def)
  next
    case False
    from ih [OF Some, of result tw1 False]
    have "walked (result, tw1) False (Id' ` found cn from to)
        (querySingle_m cn from to result tw1 False)" .
    from walked_inline [OF _ this, of tw] sel False
    have "walked (result, tw) False (Id' ` found cn from to)
        (querySingle_m cn from to result tw1 False)"
      by simp
    then show ?thesis
      using Some st sel False by (simp add: querySingle_m_child_def)
  qed
qed

lemma querySingle_m_walked:
  "walked (result, tw) back (Id' ` found n from to) (querySingle_m n from to result tw back)"
proof (induction n arbitrary: result tw "back" rule: node_induct)
  case (Node seg l r ov)
  let ?S = "Id' ` found (Node seg l r ov) from to"
  define st where "st =
      (if \<not> Disjoint seg from to then
         querySingle_m_child l from to
           (querySingle_m_child r from to (addOverlap ov result, tw))
       else (result, tw))"
  have inner: "walked (result, tw) False ?S st"
  proof (cases "Disjoint seg from to")
    case True
    then show ?thesis
      by (simp add: st_def walked_refl)
  next
    case False
    let ?st1 = "(addOverlap ov result, tw)"
    let ?st2 = "querySingle_m_child r from to ?st1"
    let ?R = "case r of None \<Rightarrow> {} | Some rn \<Rightarrow> found rn from to"
    let ?L = "case l of None \<Rightarrow> {} | Some ln \<Rightarrow> found ln from to"
    have a: "walked (result, tw) False (Id' ` set ov) ?st1"
      by (rule walked_addOverlap)
    have b: "walked ?st1 False (Id' ` ?R) ?st2"
      by (rule querySingle_m_child_walked) (rule Node.IH(2))
    have c: "walked ?st2 False (Id' ` ?L) (querySingle_m_child l from to ?st2)"
      by (rule querySingle_m_child_walked) (rule Node.IH(1))
    from walked_trans [OF walked_trans [OF a b] c]
    have "walked (result, tw) False (Id' ` set ov \<union> Id' ` ?R \<union> Id' ` ?L)
        (querySingle_m_child l from to ?st2)" .
    moreover have "?S = Id' ` set ov \<union> Id' ` ?R \<union> Id' ` ?L"
      using False by (simp add: image_Un)
    ultimately show ?thesis
      using False by (simp add: st_def)
  qed
  obtain res tw' where s: "st = (res, tw')"
    by (cases st)
  have q: "querySingle_m (Node seg l r ov) from to result tw back =
      (if back then (res, tw'\<lparr>result_chan := result_chan tw' @ [res]\<rparr>) else (res, tw'))"
    unfolding querySingle_m_unfold st_def [symmetric] s by simp
  show ?case
  proof (cases "back")
    case True
    with q walked_send [of "(result, tw)" ?S res tw'] inner s show ?thesis
      by simp
  next
    case False
    with q inner s show ?thesis
      by simp
  qed
qed

lemma collect_dom:
  "dom (foldl (\<lambda>result rmap. result ++ rmap) result maps) =
     dom result \<union> (\<Union>rmap \<in> set maps. dom rmap)"
  by (induction maps arbitrary: result) auto

lemma keyed_add: "keyed a \<Longrightarrow> keyed b \<Longrightarrow> keyed (a ++ b)"
  by (auto simp: keyed_def map_add_def split: option.splits)

lemma collect_keyed:
  "keyed result \<Longrightarrow> \<forall>rmap \<in> set maps. keyed rmap \<Longrightarrow>
   keyed (foldl (\<lambda>result rmap. result ++ rmap) result maps)"
  by (induction maps arbitrary: result) (simp_all add: keyed_add)

theorem mtree_Query_found:
  assumes "root m = Some n"
  shows "\<exists>result. mtree_Query w ds m from to = Inr (result, m)
    \<and> ids result = Id' ` found n from to"
proof -
  let ?tw0 = "twalker_init w ds"
  obtain res tw where q: "querySingle_m n from to Map.empty ?tw0 False = (res, tw)"
    by (cases "querySingle_m n from to Map.empty ?tw0 False")
  from querySingle_m_walked [of Map.empty ?tw0 False n "from" to] q
  have w: "walked (Map.empty, ?tw0) False (Id' ` found n from to) (res, tw)"
    by simp
  note W = walkedD [OF w]
  from W(1,3,4) have "length (result_chan tw) \<le> num tw"
    by (simp add: twalker_init_def)
  then have all: "take (num tw) (result_chan tw) = result_chan tw"
    by simp
  from W(5) have d: "dom res \<union> chan_ids tw = Id' ` found n from to"
    by (simp add: twalker_init_def chan_ids_def)
  from W(7) have k: "keyed res" "\<forall>rmap \<in> set (result_chan tw). keyed rmap"
    by (simp_all add: twalker_init_def)
  have "dom (collect tw res) = Id' ` found n from to"
    using d by (simp add: collect_def all collect_dom chan_ids_def)
  moreover have "keyed (collect tw res)"
    using k by (simp add: collect_def all collect_keyed)
  ultimately have "ids (collect tw res) = Id' ` found n from to"
    by (simp add: keyed_ids)
  moreover have "mtree_Query w ds m from to = Inr (collect tw res, m)"
    using assms q by (simp add: mtree_Query_def)
  ultimately show ?thesis
    by blast
qed

section \<open>The shape of the sequential tree\<close>

lemma chained_append:
  "chained (xs @ ys) \<Longrightarrow>
   chained xs \<and> chained ys \<and> (xs \<noteq> [] \<and> ys \<noteq> [] \<longrightarrow> To (last xs) = From (hd ys))"
proof (induction xs rule: chained.induct)
  case 1
  then show ?case by simp
next
  case (2 L)
  then show ?case by (cases ys) auto
next
  case (3 L M ls)
  then show ?case by auto
qed

lemma chained_points:
  "chained ls \<Longrightarrow> ls \<noteq> [] \<Longrightarrow>
   (\<Union>L \<in> set ls. points L) = points \<lparr>From = From (hd ls), To = To (last ls)\<rparr>
   \<and> From (hd ls) \<le> To (last ls)"
proof (induction ls rule: chained.induct)
  case 1
  then show ?case by simp
next
  case (2 L)
  then show ?case by (simp add: points_def)
next
  case (3 L M ls)
  then have ih: "(\<Union>K \<in> set (M # ls). points K) =
      points \<lparr>From = From M, To = To (last (M # ls))\<rparr>"
    and le: "From M \<le> To (last (M # ls))" and l: "From L \<le> To L" "To L = From M"
    by auto
  have "(\<Union>K \<in> set (L # M # ls). points K) =
      points L \<union> points \<lparr>From = From M, To = To (last (M # ls))\<rparr>"
    using ih by simp
  also have "\<dots> = points \<lparr>From = From L, To = To (last (M # ls))\<rparr>"
    using l le by (auto simp: points_def)
  finally show ?case
    using l le by simp
qed

lemma alternating_chained: "sorted eps \<Longrightarrow> chained (alternating eps)"
proof (induction eps rule: alternating.induct)
  case 1
  then show ?case by simp
next
  case (2 p)
  then show ?case by simp
next
  case (3 p q ps)
  then have "chained (alternating (q # ps))" "p \<le> q"
    by auto
  moreover have "From (hd (alternating (q # ps))) = q"
    by (cases ps) simp_all
  ultimately show ?case
    by (cases "alternating (q # ps)") auto
qed

lemma insertNodes_tiled:
  "ls \<noteq> [] \<Longrightarrow> chained ls \<Longrightarrow> insertNodes ls = Inr n \<Longrightarrow> tiled n"
proof (induction ls arbitrary: n rule: insertNodes.induct)
  case (1 leaves')
  note ne = \<open>leaves' \<noteq> []\<close> and ch = \<open>chained leaves'\<close> and built = \<open>insertNodes leaves' = Inr n\<close>
  from insertNodes_built [OF ne] built have lv: "leaves n = leaves'"
    and seg: "segment n = \<lparr>From = From (leaves' ! 0), To = To (leaves' ! (length leaves' - 1))\<rparr>"
    by auto
  from ne have hl: "leaves' ! 0 = hd leaves'" "leaves' ! (length leaves' - 1) = last leaves'"
    by (simp_all add: hd_conv_nth last_conv_nth)
  from chained_points [OF ch ne] seg hl lv
  have pts: "points (segment n) = (\<Union>L \<in> set (leaves n). points L)"
    by simp
  show ?case
  proof (cases "length leaves' = 1")
    case True
    with built have "n = Node (leaves' ! 0) None None []"
      by (subst (asm) insertNodes.simps) simp
    with pts show ?thesis
      by simp
  next
    case False
    define c where "c = length leaves' div 2"
    from False ne have "length leaves' \<noteq> 0" "length leaves' \<noteq> 1"
      by simp_all
    then have "2 \<le> length leaves'"
      by arith
    then have c: "0 < c" "c < length leaves'"
      by (simp_all add: c_def)
    then have tne: "take c leaves' \<noteq> []" and dne: "drop c leaves' \<noteq> []"
      by auto
    from chained_append [of "take c leaves'" "drop c leaves'"] ch tne dne
    have cht: "chained (take c leaves')" and chd: "chained (drop c leaves')"
      and meet: "To (last (take c leaves')) = From (hd (drop c leaves'))"
      by simp_all
    from insertNodes_built [OF tne] obtain l where l: "insertNodes (take c leaves') = Inr l"
      "segment l = \<lparr>From = From (take c leaves' ! 0),
         To = To (take c leaves' ! (length (take c leaves') - 1))\<rparr>"
      by blast
    from insertNodes_built [OF dne] obtain r where r: "insertNodes (drop c leaves') = Inr r"
      "segment r = \<lparr>From = From (drop c leaves' ! 0),
         To = To (drop c leaves' ! (length (drop c leaves') - 1))\<rparr>"
      by blast
    have tl: "tiled l"
      using "1.IH"(1) [OF False ne c_def tne cht l(1)] .
    have tr: "tiled r"
      using "1.IH"(2) [OF False ne c_def l(1) dne chd r(1)] .
    from l(2) tne have "To (segment l) = To (last (take c leaves'))"
      by (simp add: last_conv_nth)
    moreover from r(2) dne have "From (segment r) = From (hd (drop c leaves'))"
      by (simp add: hd_conv_nth)
    ultimately have nogap: "To (segment l) = From (segment r)"
      using meet by simp
    from built False ne l(1) r(1) obtain sg where n: "n = Node sg (Some l) (Some r) []"
      by (subst (asm) insertNodes.simps) (auto simp: c_def Let_def)
    from pts tl tr nogap show ?thesis
      unfolding n by (simp del: leaves.simps)
  qed
qed

lemma insertInterval_tiled [simp]: "tiled (insertInterval n i) = tiled n"
proof (induction n rule: node_induct)
  case (Node seg l r ov)
  have "leaves (insertInterval (Node seg l r ov) i) = leaves (Node seg l r ov)"
    by (rule insertInterval_leaves)
  then show ?case
    using Node by (auto simp: Let_def split: option.splits)
qed

lemma foldl_insertInterval_tiled [simp]: "tiled (foldl insertInterval n is) = tiled n"
  by (induction "is" arbitrary: n) simp_all

lemma tiled_nodes: "tiled n \<Longrightarrow> N \<in> set (nodes n) \<Longrightarrow> tiled N"
proof (induction n rule: node_induct)
  case (Node seg l r ov)
  from Node.prems(2) consider "N = Node seg l r ov"
    | ln where "l = Some ln" "N \<in> set (nodes ln)"
    | rn where "r = Some rn" "N \<in> set (nodes rn)"
    by (auto split: option.splits)
  then show ?case
  proof cases
    case 1
    with Node.prems(1) show ?thesis by simp
  next
    case 2
    with Node.prems(1) Node.IH(1) [of ln] show ?thesis
      by (auto split: option.splits)
  next
    case 3
    with Node.prems(1) Node.IH(2) [of rn] show ?thesis
      by (auto split: option.splits)
  qed
qed

theorem stree_tree_shape:
  assumes "BuildTree t = Inr t'"
  shows "\<exists>eps mn mx rt. Endpoints (base t) = Inr (eps, mn, mx) \<and> root t' = Some rt
    \<and> leaves rt = alternating eps
    \<and> (\<forall>N \<in> set (nodes rt).
          points (segment N) = (\<Union>L \<in> set (leaves N). points L)
          \<and> (left N = None \<and> right N = None
             \<or> (\<exists>l r. left N = Some l \<and> right N = Some r
                  \<and> leaves N = leaves l @ leaves r
                  \<and> To (segment l) = From (segment r))))"
proof -
  from assms have ne: "base t \<noteq> []"
    by (auto simp: BuildTree_def split: if_splits)
  from BuildTree_structure [OF ne] obtain eps n where s:
    "sorted eps" "eps \<noteq> []" "insertNodes (alternating eps) = Inr n"
    "leaves n = alternating eps"
    "BuildTree t = Inr (t\<lparr>min' := eps ! 0, max' := eps ! (length eps - 1),
                           root := Some (foldl insertInterval n (base t))\<rparr>)"
    and ep: "Endpoints (base t) = Inr (eps, eps ! 0, eps ! (length eps - 1))"
    by blast
  let ?rt = "foldl insertInterval n (base t)"
  from s(2) have "alternating eps \<noteq> []"
    by simp
  from insertNodes_tiled [OF this alternating_chained [OF s(1)] s(3)] have "tiled ?rt"
    by simp
  have shape: "points (segment N) = (\<Union>L \<in> set (leaves N). points L)
      \<and> (left N = None \<and> right N = None
         \<or> (\<exists>l r. left N = Some l \<and> right N = Some r \<and> leaves N = leaves l @ leaves r
              \<and> To (segment l) = From (segment r)))"
    if "N \<in> set (nodes ?rt)" for N
  proof -
    from tiled_nodes [OF \<open>tiled ?rt\<close> that] have t: "tiled N" .
    obtain seg l r ov where N: "N = Node seg l r ov"
      by (cases N)
    with t show ?thesis
      by (auto split: option.splits)
  qed
  from assms s(5) have "root t' = Some ?rt"
    by auto
  with ep s(4) shape show ?thesis
    by (intro exI [of _ eps] exI [of _ "eps ! 0"] exI [of _ "eps ! (length eps - 1)"]
        exI [of _ ?rt]) simp
qed

section \<open>The example, evaluated\<close>

lemma staged_BuildTree:
  "BuildTree staged = Inr (staged\<lparr>min' := 0, max' := 10, root := Some built_root\<rparr>)"
  by code_simp

lemma staged_BuildTree_v1:
  "BuildTree_v1 staged = Inr (staged\<lparr>min' := 0, max' := 10, root := Some built_root_v1\<rparr>)"
  by code_simp

lemma staged_m_BuildTree:
  "mtree_BuildTree sch staged_m =
     Inr (staged_m\<lparr>min' := 0, max' := 10, single := True, root := Some built_root_m\<rparr>)"
  by code_simp

lemma found_example:
  "found built_root_m 7 7 = {}" "found built_root 7 7 = {I1}"
  by (simp_all add: built_root_m_def built_root_def Disjoint_def)

lemma serial_example: "serial_Query staged 7 7 = [I1]"
  by (simp add: serial_Query_filter staged_def NewTree_def Clear_def Push_def Disjoint_def
      I1_def wrap64_def)

section \<open>Queries leave the tree\<close>

text \<open>
  Claim C9. A query that returns leaves the tree record it was given: the root with every
  node's segment, children and overlap list, the staging slice, the counter and the
  cached bounds. The query paths of the source assign to the result map and to the
  walker only, and so do their models.
\<close>

theorem queries_leave_tree:
  "(Query t from to = Inr (r1, t1) \<longrightarrow> t1 = t)
   \<and> (QueryArray t froms tos = Inr (r2, t2) \<longrightarrow> t2 = t)
   \<and> (mtree_Query w ds m from to = Inr (r3, m3) \<longrightarrow> m3 = m)
   \<and> (mtree_QueryArray w ds m froms tos = Inr (r4, m4) \<longrightarrow> m4 = m)"
  by (auto simp: Query_def QueryArray_def mtree_Query_def mtree_QueryArray_def Let_def
      split: option.splits sum.splits prod.splits)

section \<open>What the parallel tree does differently\<close>

lemma queryMulti_m_calls_unfiltered:
  "(seg, f, t) \<in> set (queryMulti_m_calls n from to) \<Longrightarrow> f = from \<and> t = to"
proof (induction n rule: node_induct)
  case (Node seg' l r ov)
  then show ?case
    by (auto split: sum.splits prod.splits if_splits option.splits)
qed

text \<open>
  The sequential traversal enters the nodes below a node only with ranges that are not
  disjoint from that node's segment; every call of the parallel traversal receives the
  slices of the first call. On a tree whose child lies outside its parent, which no build
  produces, the difference shows in the answer.
\<close>

lemma queryMulti_calls_subset:
  "length from \<le> length to \<Longrightarrow> (s, f, t) \<in> set (queryMulti_calls n from to) \<Longrightarrow>
   length f \<le> length t \<and> set (zip f t) \<subseteq> set (zip from to)"
proof (induction n arbitrary: "from" to rule: node_induct)
  case (Node seg l r ov)
  let ?hits = "filter (\<lambda>(a, b). \<not> Disjoint seg a b) (zip from to)"
  let ?hf = "map fst ?hits" and ?ht = "map snd ?hits"
  from queryMulti_loop_result [OF Node.prems(1), of seg ov Map.empty "[]" "[]"]
  obtain res where loop: "queryMulti_loop seg ov from to (Map.empty, [], []) = Inr (res, ?hf, ?ht)"
    by auto
  have z: "zip ?hf ?ht = ?hits"
    by (rule zip_map_fst_snd)
  have len: "length ?hf \<le> length ?ht"
    by simp
  from Node.prems(2) loop consider "(s, f, t) = (seg, from, to)"
    | rn where "r = Some rn" "(s, f, t) \<in> set (queryMulti_calls rn ?hf ?ht)"
    | ln where "l = Some ln" "(s, f, t) \<in> set (queryMulti_calls ln ?hf ?ht)"
    by (auto split: if_splits option.splits)
  then show ?case
  proof cases
    case 1
    with Node.prems(1) show ?thesis by simp
  next
    case 2
    from Node.IH(2) [OF 2(1) len 2(2)] z show ?thesis
      by auto
  next
    case 3
    from Node.IH(1) [OF 3(1) len 3(2)] z show ?thesis
      by auto
  qed
qed

lemma queryMulti_calls_filtered:
  assumes "length from \<le> length to"
    and "(s, f, t) \<in> set (tl (queryMulti_calls n from to))"
  shows "set (zip f t) \<subseteq> {(a, b) \<in> set (zip from to). \<not> Disjoint (segment n) a b}"
proof -
  obtain seg l r ov where n: "n = Node seg l r ov"
    by (cases n)
  let ?hits = "filter (\<lambda>(a, b). \<not> Disjoint seg a b) (zip from to)"
  let ?hf = "map fst ?hits" and ?ht = "map snd ?hits"
  from queryMulti_loop_result [OF assms(1), of seg ov Map.empty "[]" "[]"]
  obtain res where loop: "queryMulti_loop seg ov from to (Map.empty, [], []) = Inr (res, ?hf, ?ht)"
    by auto
  have z: "zip ?hf ?ht = ?hits"
    by (rule zip_map_fst_snd)
  have len: "length ?hf \<le> length ?ht"
    by simp
  from assms(2) n loop consider
      rn where "r = Some rn" "(s, f, t) \<in> set (queryMulti_calls rn ?hf ?ht)"
    | ln where "l = Some ln" "(s, f, t) \<in> set (queryMulti_calls ln ?hf ?ht)"
    by (auto split: if_splits option.splits)
  then have "set (zip f t) \<subseteq> set ?hits"
  proof cases
    case 1
    from queryMulti_calls_subset [OF len 1(2)] z show ?thesis
      by simp
  next
    case 2
    from queryMulti_calls_subset [OF len 2(2)] z show ?thesis
      by simp
  qed
  with n show ?thesis
    by auto
qed

lemma queryMulti_m_off_tree:
  "queryMulti
     (Node \<lparr>From = 0, To = 10\<rparr> None
        (Some (Node \<lparr>From = 20, To = 30\<rparr> None None
           [\<lparr>Id' = 7, Segment = \<lparr>From = 20, To = 30\<rparr>\<rparr>])) [])
     [5, 25] [6, 26] Map.empty = Inr Map.empty"
  "queryMulti_m
     (Node \<lparr>From = 0, To = 10\<rparr> None
        (Some (Node \<lparr>From = 20, To = 30\<rparr> None None
           [\<lparr>Id' = 7, Segment = \<lparr>From = 20, To = 30\<rparr>\<rparr>])) [])
     [5, 25] [6, 26] Map.empty (twalker_init 0 []) False =
   Inr (Map.empty(7 \<mapsto> \<lparr>Id' = 7, Segment = \<lparr>From = 20, To = 30\<rparr>\<rparr>), twalker_init 0 [])"
  by (simp_all add: Disjoint_def addOverlap_def select_queue_def twalker_init_def)

text \<open>
  Claim C5, at the example. The root of the parallel tree has the segment \<open>[0,10]\<close>; of
  the two probe ranges \<open>(0,0)\<close> and \<open>(20,25)\<close> the second is disjoint from it. The
  parallel \<open>queryMulti\<close> enters every node below the root with both ranges, the
  sequential one with the first range alone.
\<close>

theorem queryMulti_m_carries_missed_ranges:
  "mtree_BuildTree sch staged_m =
     Inr (staged_m\<lparr>min' := 0, max' := 10, single := True, root := Some built_root_m\<rparr>)
   \<and> Disjoint (segment built_root_m) 20 25
   \<and> queryMulti_m_calls built_root_m [0, 20] [0, 25] =
       [(\<lparr>From = 0, To = 10\<rparr>, [0, 20], [0, 25]),
        (\<lparr>From = 10, To = 10\<rparr>, [0, 20], [0, 25]),
        (\<lparr>From = 0, To = 5\<rparr>, [0, 20], [0, 25]),
        (\<lparr>From = 5, To = 5\<rparr>, [0, 20], [0, 25]),
        (\<lparr>From = 0, To = 0\<rparr>, [0, 20], [0, 25])]
   \<and> queryMulti_calls built_root_m [0, 20] [0, 25] =
       [(\<lparr>From = 0, To = 10\<rparr>, [0, 20], [0, 25]),
        (\<lparr>From = 10, To = 10\<rparr>, [0], [0]),
        (\<lparr>From = 0, To = 5\<rparr>, [0], [0]),
        (\<lparr>From = 5, To = 5\<rparr>, [0], [0]),
        (\<lparr>From = 0, To = 0\<rparr>, [0], [0])]"
  by (simp add: staged_m_BuildTree built_root_m_def Disjoint_def)

text \<open>
  Claim C1, at the example. After \<open>Push(0,0)\<close>, \<open>Push(5,10)\<close> and \<open>BuildTree\<close>, the
  parallel tree answers the probe \<open>(7,7)\<close> with no interval, for every number of
  workers and every schedule, while the serial oracle and the sequential tree return the
  interval with id 1.
\<close>

theorem mtree_Query_misses_overlap:
  "mtree_BuildTree sch staged_m =
     Inr (staged_m\<lparr>min' := 0, max' := 10, single := True, root := Some built_root_m\<rparr>)
   \<and> (\<exists>result.
        mtree_Query w ds
          (staged_m\<lparr>min' := 0, max' := 10, single := True, root := Some built_root_m\<rparr>) 7 7 =
          Inr (result,
            staged_m\<lparr>min' := 0, max' := 10, single := True, root := Some built_root_m\<rparr>)
        \<and> ids result = {})
   \<and> base staged_m = base staged
   \<and> Id' ` set (serial_Query staged 7 7) = {1}
   \<and> (\<exists>t' result. BuildTree staged = Inr t' \<and> Query t' 7 7 = Inr (result, t')
        \<and> ids result = {1})"
proof -
  let ?m = "staged_m\<lparr>min' := 0, max' := 10, single := True, root := Some built_root_m\<rparr>"
  let ?t = "staged\<lparr>min' := 0, max' := 10, root := Some built_root\<rparr>"
  have "root ?m = Some built_root_m"
    by simp
  from mtree_Query_found [OF this, of w ds 7 7]
  have "\<exists>result. mtree_Query w ds ?m 7 7 = Inr (result, ?m) \<and> ids result = {}"
    by (simp add: found_example)
  moreover have "base staged_m = base staged"
    by (simp add: staged_def staged_m_def NewTree_def NewMTree_def Clear_def mtree_Clear_def
        Push_def mtree_Push_def)
  moreover have "Id' ` set (serial_Query staged 7 7) = {1}"
    by (simp add: serial_example I1_def)
  moreover have "\<exists>result. Query ?t 7 7 = Inr (result, ?t) \<and> ids result = {1}"
  proof -
    have "result_ids (Query ?t 7 7) = {1}"
      by (simp add: Query_ids [of ?t built_root] found_example I1_def)
    then show ?thesis
      by (simp add: Query_def result_ids_def)
  qed
  ultimately show ?thesis
    using staged_m_BuildTree staged_BuildTree by blast
qed

text \<open>
  Claim C3, at the example. The root of the parallel tree has the segment \<open>[0,10]\<close> and
  the leaves \<open>[0,0]\<close>, \<open>[5,5]\<close>, \<open>[10,10]\<close>: the point 7 lies in the root's segment and
  in no leaf, and between the left child, which ends at 5, and the right child, which
  begins at 10.
\<close>

theorem mtree_insertNodes_leaves_gap:
  "mtree_BuildTree sch staged_m =
     Inr (staged_m\<lparr>min' := 0, max' := 10, single := True, root := Some built_root_m\<rparr>)
   \<and> leaves built_root_m =
       [\<lparr>From = 0, To = 0\<rparr>, \<lparr>From = 5, To = 5\<rparr>, \<lparr>From = 10, To = 10\<rparr>]
   \<and> 7 \<in> points (segment built_root_m)
   \<and> 7 \<notin> (\<Union>L \<in> set (leaves built_root_m). points L)
   \<and> (\<exists>l r. left built_root_m = Some l \<and> right built_root_m = Some r
        \<and> To (segment l) = 5 \<and> From (segment r) = 10
        \<and> 7 \<notin> points (segment l) \<union> points (segment r))"
  by (simp add: staged_m_BuildTree built_root_m_def points_def)

section \<open>Instances\<close>

lemma built_root_queries:
  "querySingle built_root 7 7 Map.empty = Map.empty(1 \<mapsto> I1)"
  "querySingle built_root 0 0 Map.empty = Map.empty(0 \<mapsto> I0)"
  "queryMulti built_root [7, 0] [7, 0] Map.empty = Inr (Map.empty(1 \<mapsto> I1, 0 \<mapsto> I0))"
  by (simp_all add: built_root_def Disjoint_def addOverlap_def I0_def I1_def)

theorem QueryArray_union_witness:
  "root (staged\<lparr>min' := 0, max' := 10, root := Some built_root\<rparr>) = Some built_root
   \<and> length [7, 0 :: int] \<le> length [7, 0 :: int]
   \<and> QueryArray (staged\<lparr>min' := 0, max' := 10, root := Some built_root\<rparr>) [7, 0] [7, 0] =
       Inr (Map.empty(1 \<mapsto> I1, 0 \<mapsto> I0),
            staged\<lparr>min' := 0, max' := 10, root := Some built_root\<rparr>)
   \<and> ids (Map.empty(1 \<mapsto> I1, 0 \<mapsto> I0)) =
       result_ids (Query (staged\<lparr>min' := 0, max' := 10, root := Some built_root\<rparr>) 7 7)
       \<union> result_ids (Query (staged\<lparr>min' := 0, max' := 10, root := Some built_root\<rparr>) 0 0)"
proof -
  let ?t = "staged\<lparr>min' := 0, max' := 10, root := Some built_root\<rparr>"
  have r: "root ?t = Some built_root"
    by simp
  have l: "length [7, 0 :: int] \<le> length [7, 0 :: int]"
    by simp
  have q: "QueryArray ?t [7, 0] [7, 0] = Inr (Map.empty(1 \<mapsto> I1, 0 \<mapsto> I0), ?t)"
    by (simp add: QueryArray_def built_root_queries)
  have u: "(\<Union>i < length [7, 0 :: int]. result_ids (Query ?t ([7, 0] ! i) ([7, 0] ! i))) =
      result_ids (Query ?t 7 7) \<union> result_ids (Query ?t 0 0)"
    by (simp add: lessThan_Suc numeral_2_eq_2 Un_commute)
  from QueryArray_union [OF r l] q u r l show ?thesis
    by simp
qed


theorem canonical_insertion_witness:
  "BuildTree staged = Inr (staged\<lparr>min' := 0, max' := 10, root := Some built_root\<rparr>)
   \<and> mtree_BuildTree [] staged_m =
       Inr (staged_m\<lparr>min' := 0, max' := 10, single := True, root := Some built_root_m\<rparr>)
   \<and> the (right built_root) \<in> set (nodes built_root)
   \<and> the (right built_root_m) \<in> set (nodes built_root_m)
   \<and> I1 \<in> set (overlap (the (right built_root)))
   \<and> I1 \<in> set (overlap (the (right built_root_m)))
   \<and> I1 \<in> set (base staged) \<and> I1 \<in> set (base staged_m)
   \<and> subsetOf (segment (the (right built_root))) (Segment I1)
   \<and> subsetOf (segment (the (right built_root_m))) (Segment I1)
   \<and> I1 \<notin> (\<Union>D \<in> set (descendants (the (right built_root))). set (overlap D))
   \<and> I1 \<notin> (\<Union>D \<in> set (descendants (the (right built_root_m))). set (overlap D))"
proof -
  let ?t = "staged\<lparr>min' := 0, max' := 10, root := Some built_root\<rparr>"
  let ?m = "staged_m\<lparr>min' := 0, max' := 10, single := True, root := Some built_root_m\<rparr>"
  have r: "root ?t = Some built_root" "root ?m = Some built_root_m"
    by simp_all
  have n: "the (right built_root) \<in> set (nodes built_root)"
    "the (right built_root_m) \<in> set (nodes built_root_m)"
    by (simp_all add: built_root_def built_root_m_def)
  have i: "I1 \<in> set (overlap (the (right built_root)))"
    "I1 \<in> set (overlap (the (right built_root_m)))"
    by (simp_all add: built_root_def built_root_m_def)
  from canonical_insertion [of staged ?t built_root "[]" staged_m ?m built_root_m]
    staged_BuildTree staged_m_BuildTree [of "[]"] r n i
  show ?thesis
    by blast
qed

theorem insertInterval_formulations_agree_witness:
  "BuildTree staged = Inr (staged\<lparr>min' := 0, max' := 10, root := Some built_root\<rparr>)
   \<and> BuildTree_v1 staged =
       Inr (staged\<lparr>min' := 0, max' := 10, root := Some built_root_v1\<rparr>)
   \<and> mtree_BuildTree [] staged_m =
       Inr (staged_m\<lparr>min' := 0, max' := 10, single := True, root := Some built_root_m\<rparr>)
   \<and> insertInterval_CompareTo built_root \<lparr>Id' = 2, Segment = \<lparr>From = 3, To = 7\<rparr>\<rparr> =
       insertInterval built_root \<lparr>Id' = 2, Segment = \<lparr>From = 3, To = 7\<rparr>\<rparr>
   \<and> insertInterval_CompareTo built_root_v1 \<lparr>Id' = 2, Segment = \<lparr>From = 3, To = 7\<rparr>\<rparr> =
       insertInterval built_root_v1 \<lparr>Id' = 2, Segment = \<lparr>From = 3, To = 7\<rparr>\<rparr>
   \<and> insertInterval built_root_m \<lparr>Id' = 2, Segment = \<lparr>From = 3, To = 7\<rparr>\<rparr> =
       mtree_insertInterval built_root_m \<lparr>Id' = 2, Segment = \<lparr>From = 3, To = 7\<rparr>\<rparr>
   \<and> overlap (the (left (the (right
         (insertInterval built_root \<lparr>Id' = 2, Segment = \<lparr>From = 3, To = 7\<rparr>\<rparr>))))) =
       [\<lparr>Id' = 2, Segment = \<lparr>From = 3, To = 7\<rparr>\<rparr>]"
proof -
  let ?t = "staged\<lparr>min' := 0, max' := 10, root := Some built_root\<rparr>"
  let ?t1 = "staged\<lparr>min' := 0, max' := 10, root := Some built_root_v1\<rparr>"
  let ?m = "staged_m\<lparr>min' := 0, max' := 10, single := True, root := Some built_root_m\<rparr>"
  let ?i = "\<lparr>Id' = 2, Segment = \<lparr>From = 3, To = 7\<rparr>\<rparr>"
  have r: "root ?t = Some built_root" "root ?t1 = Some built_root_v1"
    "root ?m = Some built_root_m"
    by simp_all
  have o: "overlap (the (left (the (right (insertInterval built_root ?i))))) = [?i]"
    by (simp add: built_root_def subsetOf_def intersectsWith_def)
  from insertInterval_formulations_agree [of staged ?t built_root ?i ?t1 built_root_v1
      "[]" staged_m ?m built_root_m]
    staged_BuildTree staged_BuildTree_v1 staged_m_BuildTree [of "[]"] r o
  show ?thesis
    by simp
qed

theorem queries_leave_tree_witness:
  "Query (staged\<lparr>min' := 0, max' := 10, root := Some built_root\<rparr>) 7 7 =
     Inr (Map.empty(1 \<mapsto> I1), staged\<lparr>min' := 0, max' := 10, root := Some built_root\<rparr>)
   \<and> QueryArray (staged\<lparr>min' := 0, max' := 10, root := Some built_root\<rparr>) [7, 0] [7, 0] =
       Inr (Map.empty(1 \<mapsto> I1, 0 \<mapsto> I0),
            staged\<lparr>min' := 0, max' := 10, root := Some built_root\<rparr>)
   \<and> mtree_Query 4 []
         (staged_m\<lparr>min' := 0, max' := 10, single := True, root := Some built_root_m\<rparr>) 5 5 =
       Inr (Map.empty(1 \<mapsto> I1),
            staged_m\<lparr>min' := 0, max' := 10, single := True, root := Some built_root_m\<rparr>)
   \<and> mtree_QueryArray 4 []
         (staged_m\<lparr>min' := 0, max' := 10, single := True, root := Some built_root_m\<rparr>)
         [5] [5] =
       Inr (Map.empty(1 \<mapsto> I1),
            staged_m\<lparr>min' := 0, max' := 10, single := True, root := Some built_root_m\<rparr>)"
proof -
  let ?t = "staged\<lparr>min' := 0, max' := 10, root := Some built_root\<rparr>"
  let ?m = "staged_m\<lparr>min' := 0, max' := 10, single := True, root := Some built_root_m\<rparr>"
  have a: "Query ?t 7 7 = Inr (Map.empty(1 \<mapsto> I1), ?t)"
    by (simp add: Query_def built_root_queries)
  have b: "QueryArray ?t [7, 0] [7, 0] = Inr (Map.empty(1 \<mapsto> I1, 0 \<mapsto> I0), ?t)"
    by (simp add: QueryArray_def built_root_queries)
  have c: "mtree_Query 4 [] ?m 5 5 = Inr (Map.empty(1 \<mapsto> I1), ?m)"
    by (simp add: mtree_Query_def built_root_m_def querySingle_m.simps Disjoint_def
        addOverlap_def select_queue_def twalker_init_def collect_def Let_def I1_def)
  have d: "mtree_QueryArray 4 [] ?m [5] [5] = Inr (Map.empty(1 \<mapsto> I1), ?m)"
    by (simp add: mtree_QueryArray_def built_root_m_def Disjoint_def
        addOverlap_def select_queue_def twalker_init_def collect_def Let_def I1_def)
  from queries_leave_tree [of ?t 7 7 "Map.empty(1 \<mapsto> I1)" ?t "[7, 0]" "[7, 0]"
      "Map.empty(1 \<mapsto> I1, 0 \<mapsto> I0)" ?t]
    queries_leave_tree [of ?t 5 5 _ _ "[5]" "[5]" _ _ 4 "[]" ?m "Map.empty(1 \<mapsto> I1)" ?m
      "Map.empty(1 \<mapsto> I1)" ?m]
    a b c d
  show ?thesis
    by simp
qed

theorem stree_Query_oracle_witness:
  "base staged \<noteq> [] \<and> From (Segment I0) \<le> To (Segment I0)
   \<and> From (Segment I1) \<le> To (Segment I1) \<and> (7 :: int) \<le> 7
   \<and> BuildTree staged = Inr (staged\<lparr>min' := 0, max' := 10, root := Some built_root\<rparr>)
   \<and> Query (staged\<lparr>min' := 0, max' := 10, root := Some built_root\<rparr>) 7 7 =
       Inr (Map.empty(1 \<mapsto> I1), staged\<lparr>min' := 0, max' := 10, root := Some built_root\<rparr>)
   \<and> ids (Map.empty(1 \<mapsto> I1)) = Id' ` set (serial_Query staged 7 7)"
proof -
  have b: "base staged = [I0, I1]"
    by (simp add: staged_def NewTree_def Clear_def Push_def I0_def I1_def wrap64_def)
  then have ne: "base staged \<noteq> []"
    and wf: "\<forall>i \<in> set (base staged). From (Segment i) \<le> To (Segment i)"
    by (simp_all add: I0_def I1_def)
  have q: "Query (staged\<lparr>min' := 0, max' := 10, root := Some built_root\<rparr>) 7 7 =
      Inr (Map.empty(1 \<mapsto> I1), staged\<lparr>min' := 0, max' := 10, root := Some built_root\<rparr>)"
    by (simp add: Query_def built_root_queries)
  from stree_Query_oracle [OF ne wf, of 7 7] staged_BuildTree q ne show ?thesis
    by (simp add: I0_def I1_def)
qed

text \<open>
  The two hypotheses on the inputs of \<open>stree_Query_oracle\<close> are needed. With the
  intervals \<open>[0,20]\<close> and \<open>[10,30]\<close> staged, the probe \<open>(20,0)\<close>, whose bounds are
  swapped, is answered with the first interval by the oracle and with none by the tree; and
  a staged interval \<open>(7,3)\<close> is returned by the oracle for the probe \<open>(3,7)\<close> and never
  by the tree.
\<close>

lemma swapped_probe:
  "serial_Query (Push (Push NewTree 0 20) 10 30) 20 0 =
     [\<lparr>Id' = 0, Segment = \<lparr>From = 0, To = 20\<rparr>\<rparr>]"
  "\<exists>t' result. BuildTree (Push (Push NewTree 0 20) 10 30) = Inr t'
     \<and> Query t' 20 0 = Inr (result, t') \<and> result = Map.empty"
proof -
  show "serial_Query (Push (Push NewTree 0 20) 10 30) 20 0 =
     [\<lparr>Id' = 0, Segment = \<lparr>From = 0, To = 20\<rparr>\<rparr>]"
    by (simp add: serial_Query_filter NewTree_def Clear_def Push_def Disjoint_def wrap64_def)
  have "BuildTree (Push (Push NewTree 0 20) 10 30) =
      Inr (Push (Push NewTree 0 20) 10 30
        \<lparr>min' := 0, max' := 30, root := Some
          (Node \<lparr>From = 0, To = 30\<rparr>
            (Some (Node \<lparr>From = 0, To = 10\<rparr>
               (Some (Node \<lparr>From = 0, To = 0\<rparr> None None []))
               (Some (Node \<lparr>From = 0, To = 10\<rparr>
                  (Some (Node \<lparr>From = 0, To = 10\<rparr> None None []))
                  (Some (Node \<lparr>From = 10, To = 10\<rparr> None None
                     [\<lparr>Id' = 1, Segment = \<lparr>From = 10, To = 30\<rparr>\<rparr>])) []))
               [\<lparr>Id' = 0, Segment = \<lparr>From = 0, To = 20\<rparr>\<rparr>]))
            (Some (Node \<lparr>From = 10, To = 30\<rparr>
               (Some (Node \<lparr>From = 10, To = 20\<rparr>
                  (Some (Node \<lparr>From = 10, To = 20\<rparr> None None []))
                  (Some (Node \<lparr>From = 20, To = 20\<rparr> None None []))
                  [\<lparr>Id' = 0, Segment = \<lparr>From = 0, To = 20\<rparr>\<rparr>]))
               (Some (Node \<lparr>From = 20, To = 30\<rparr>
                  (Some (Node \<lparr>From = 20, To = 30\<rparr> None None []))
                  (Some (Node \<lparr>From = 30, To = 30\<rparr> None None [])) []))
               [\<lparr>Id' = 1, Segment = \<lparr>From = 10, To = 30\<rparr>\<rparr>]))
            [])\<rparr>)"
    by code_simp
  then show "\<exists>t' result. BuildTree (Push (Push NewTree 0 20) 10 30) = Inr t'
     \<and> Query t' 20 0 = Inr (result, t') \<and> result = Map.empty"
    by (simp add: Query_def Disjoint_def addOverlap_def)
qed


lemma swapped_interval:
  "serial_Query (Push NewTree 7 3) 3 7 = [\<lparr>Id' = 0, Segment = \<lparr>From = 7, To = 3\<rparr>\<rparr>]"
  "\<exists>t' result. BuildTree (Push NewTree 7 3) = Inr t'
     \<and> Query t' 3 7 = Inr (result, t') \<and> result = Map.empty"
proof -
  show "serial_Query (Push NewTree 7 3) 3 7 = [\<lparr>Id' = 0, Segment = \<lparr>From = 7, To = 3\<rparr>\<rparr>]"
    by (simp add: serial_Query_filter NewTree_def Clear_def Push_def Disjoint_def)
  have "BuildTree (Push NewTree 7 3) =
      Inr (Push NewTree 7 3
        \<lparr>min' := 3, max' := 7, root := Some
          (Node \<lparr>From = 3, To = 7\<rparr>
            (Some (Node \<lparr>From = 3, To = 3\<rparr> None None []))
            (Some (Node \<lparr>From = 3, To = 7\<rparr>
               (Some (Node \<lparr>From = 3, To = 7\<rparr> None None []))
               (Some (Node \<lparr>From = 7, To = 7\<rparr> None None [])) []))
            [])\<rparr>)"
    by code_simp
  then show "\<exists>t' result. BuildTree (Push NewTree 7 3) = Inr t'
     \<and> Query t' 3 7 = Inr (result, t') \<and> result = Map.empty"
    by (simp add: Query_def Disjoint_def addOverlap_def)
qed

end
